theory Spec2Isabelle
  imports Main "HOL-Library.Word"
begin

section \<open>Machine integers and constants of ADC.h\<close>

type_synonym u8 = "8 word"
type_synonym u16 = "16 word"
type_synonym u32 = "32 word"

text \<open>The macros of ADC.h. Unsigned literals (suffix U) have type unsigned int, which is
  32 bits wide on the Cortex-M4 target. \<^verbatim>\<open>ASCII_ZERO\<close> and \<^verbatim>\<open>ASCII_DOT_CHAR\<close> are of type
  int in C; they are used only in sums that are narrowed to 8 bits, where the 32-bit word gives
  the same byte.\<close>

definition ADC16_DEFAULT_CHANNEL :: u32 where
  "ADC16_DEFAULT_CHANNEL = 0"

definition ADC_FULL_SCALE_COUNTS :: u32 where
  "ADC_FULL_SCALE_COUNTS = 4096"

definition TEMP_MAX_C :: u32 where
  "TEMP_MAX_C = 40"

definition ADC_SAMPLE_PERIOD_MS :: u32 where
  "ADC_SAMPLE_PERIOD_MS = 20"

definition ADC_AVG_WINDOW :: u32 where
  "ADC_AVG_WINDOW = 5"

definition ASCII_ZERO :: u32 where
  "ASCII_ZERO = 48"

definition ASCII_DOT_CHAR :: u32 where
  "ASCII_DOT_CHAR = 46"

section \<open>Raw counts to degrees\<close>

text \<open>\<^verbatim>\<open>ADC_CountsToTempC\<close>: the product and the quotient are computed in 32 bits, the
  result is saturated at \<^verbatim>\<open>TEMP_MAX_C\<close> and then narrowed to 8 bits.\<close>

definition ADC_CountsToTempC :: "u16 \<Rightarrow> u8" where
  "ADC_CountsToTempC counts =
     (let t = (ucast counts * TEMP_MAX_C) div ADC_FULL_SCALE_COUNTS;
          t = (if t > TEMP_MAX_C then TEMP_MAX_C else t)
      in ucast t)"

section \<open>Module state of ADC.c\<close>

text \<open>The file-scope variables of ADC.c. The arrays \<^verbatim>\<open>s_tempBuf[ADC_AVG_WINDOW]\<close> and
  \<^verbatim>\<open>gAdcTempAscii[4]\<close> are lists; their declared sizes are the well-formedness condition
  \<open>adc_wf\<close>.\<close>

record adc_state =
  s_activeChannel :: u32
  s_lastKickMs :: u32
  s_tempBuf :: "u8 list"
  s_tempCount :: u8
  s_tempIndex :: u8
  s_lastTempC :: u8
  gAdcTempAscii :: "u8 list"

definition adc_wf :: "adc_state \<Rightarrow> bool" where
  "adc_wf s = (length (s_tempBuf s) = 5 \<and> length (gAdcTempAscii s) = 4)"

text \<open>The static initialisers: the state before \<^verbatim>\<open>ADC_InitModule\<close> has run.\<close>

definition adc_startup :: adc_state where
  "adc_startup =
     \<lparr>s_activeChannel = ADC16_DEFAULT_CHANNEL, s_lastKickMs = 0,
      s_tempBuf = [0, 0, 0, 0, 0], s_tempCount = 0, s_tempIndex = 0,
      s_lastTempC = 0, gAdcTempAscii = [48, 48, 46, 48]\<rparr>"

text \<open>What C leaves undefined or never finishes is a value: an array access outside the
  array, and the polling loop of a converter that never raises its flag.\<close>

datatype fault = OutOfBounds | Hang

section \<open>Rolling buffer\<close>

text \<open>\<^verbatim>\<open>ADC_PushTemp\<close>. The index arithmetic is done in unsigned int (the operand 1U) and
  narrowed back to 8 bits; the count is compared after promotion and incremented in 8 bits.\<close>

definition ADC_PushTemp :: "u8 \<Rightarrow> adc_state \<Rightarrow> fault + adc_state" where
  "ADC_PushTemp temp_c s =
     (if unat (s_tempIndex s) < length (s_tempBuf s) then
        (let s1 = s\<lparr>s_tempBuf := (s_tempBuf s)[unat (s_tempIndex s) := temp_c]\<rparr>;
             s2 = s1\<lparr>s_tempIndex := ucast ((ucast (s_tempIndex s1) + 1) mod ADC_AVG_WINDOW)\<rparr>
         in Inr (if ucast (s_tempCount s2) < ADC_AVG_WINDOW
                 then s2\<lparr>s_tempCount := s_tempCount s2 + 1\<rparr> else s2))
      else Inl OutOfBounds)"

text \<open>A sequence of pushes, one after the other.\<close>

fun ADC_PushTemp_all :: "u8 list \<Rightarrow> adc_state \<Rightarrow> fault + adc_state" where
  "ADC_PushTemp_all [] s = Inr s"
| "ADC_PushTemp_all (v # vs) s =
     (case ADC_PushTemp v s of Inl e \<Rightarrow> Inl e | Inr s' \<Rightarrow> ADC_PushTemp_all vs s')"

text \<open>The summation loop of \<^verbatim>\<open>ADC_GetAvgTempC\<close>: \<open>i\<close> is the 8-bit loop counter and
  \<open>acc\<close> the 16-bit accumulator.\<close>

function ADC_GetAvgTempC_loop :: "u8 list \<Rightarrow> u8 \<Rightarrow> u8 \<Rightarrow> u16 \<Rightarrow> fault + u16" where
  "ADC_GetAvgTempC_loop buf cnt i acc =
     (if i < cnt then
        (if unat i < length buf
         then ADC_GetAvgTempC_loop buf cnt (i + 1) (acc + ucast (buf ! unat i))
         else Inl OutOfBounds)
      else Inr acc)"
  by pat_completeness auto
termination
proof (relation "measure (\<lambda>(buf, cnt, i, acc). unat cnt - unat i)")
  show "wf (measure (\<lambda>(buf :: u8 list, cnt :: u8, i :: u8, acc :: u16). unat cnt - unat i))"
    by simp
next
  fix buf :: "u8 list" and cnt i :: u8 and acc :: u16
  assume lt: "i < cnt"
  then have "unat i < unat cnt" by (simp add: word_less_nat_alt)
  moreover have "unat cnt < 256" using unsigned_less [of cnt, where 'a = nat] by simp
  ultimately have "unat (i + 1) = unat i + 1" by (simp add: unat_word_ariths)
  with \<open>unat i < unat cnt\<close>
  show "((buf, cnt, i + 1, acc + ucast (buf ! unat i)), (buf, cnt, i, acc))
        \<in> measure (\<lambda>(buf, cnt, i, acc). unat cnt - unat i)"
    by simp
qed

declare ADC_GetAvgTempC_loop.simps [simp del]

definition ADC_GetAvgTempC :: "adc_state \<Rightarrow> fault + u8" where
  "ADC_GetAvgTempC s =
     (if s_tempCount s = 0 then Inr 0
      else case ADC_GetAvgTempC_loop (s_tempBuf s) (s_tempCount s) 0 0 of
             Inl e \<Rightarrow> Inl e
           | Inr acc \<Rightarrow> Inr (ucast (acc div ucast (s_tempCount s))))"

definition ADC_GetLastTempC :: "adc_state \<Rightarrow> u8" where
  "ADC_GetLastTempC s = s_lastTempC s"

section \<open>Formatting\<close>

text \<open>\<^verbatim>\<open>ADC_FormatTempToAscii\<close>: quotient and remainder in unsigned int (the operand 10U),
  narrowed to 8 bits; the sums with \<^verbatim>\<open>ASCII_ZERO\<close> are narrowed to 8 bits as well.\<close>

definition ADC_FormatTempToAscii :: "u8 \<Rightarrow> adc_state \<Rightarrow> adc_state" where
  "ADC_FormatTempToAscii temp_c s =
     (let tens = (ucast ((ucast temp_c :: u32) div 10) :: u8);
          units = (ucast ((ucast temp_c :: u32) mod 10) :: u8);
          a0 = (gAdcTempAscii s)[0 := ucast (ASCII_ZERO + ucast tens)];
          a1 = a0[1 := ucast (ASCII_ZERO + ucast units)];
          a2 = a1[2 := ucast ASCII_DOT_CHAR];
          a3 = a2[3 := ucast (ASCII_ZERO + 0)]
      in s\<lparr>gAdcTempAscii := a3\<rparr>)"

definition ADC_FormatAvgTempToAscii :: "adc_state \<Rightarrow> fault + adc_state" where
  "ADC_FormatAvgTempToAscii s =
     (case ADC_GetAvgTempC s of
        Inl e \<Rightarrow> Inl e
      | Inr avg \<Rightarrow> Inr (ADC_FormatTempToAscii avg s))"

section \<open>The converter and the periodic service\<close>

text \<open>The ADC16 peripheral is driven through three calls of the vendor driver, which is not
  part of this module. What the module can observe of it is: the done flag \<open>COCO k n\<close> that
  the \<open>n\<close>-th status read of the \<open>k\<close>-th conversion returns, and the result \<open>R k\<close> of that
  conversion. \<open>n_started\<close> counts the software triggers, \<open>polls\<close> the status reads of the
  conversion in flight, \<open>channel\<close> is the channel last written.\<close>

record adc16 =
  COCO :: "nat \<Rightarrow> nat \<Rightarrow> bool"
  R :: "nat \<Rightarrow> u16"
  n_started :: nat
  polls :: nat
  channel :: u32

definition ADC16_SetChannelConfig :: "u32 \<Rightarrow> adc16 \<Rightarrow> adc16" where
  "ADC16_SetChannelConfig ch h = h\<lparr>n_started := Suc (n_started h), polls := 0, channel := ch\<rparr>"

definition ADC16_GetChannelStatusFlags :: "adc16 \<Rightarrow> bool \<times> adc16" where
  "ADC16_GetChannelStatusFlags h = (COCO h (n_started h) (polls h), h\<lparr>polls := Suc (polls h)\<rparr>)"

definition ADC16_GetChannelConversionValue :: "adc16 \<Rightarrow> u16" where
  "ADC16_GetChannelConversionValue h = R h (n_started h)"

text \<open>The busy-wait of \<^verbatim>\<open>ADC_ConvertOnce_Polling\<close>: it has no timeout, so it is a partial
  function, and \<open>None\<close> is the loop that never ends.\<close>

partial_function (option) ADC_ConvertOnce_Polling_wait :: "adc16 \<Rightarrow> adc16 option" where
  "ADC_ConvertOnce_Polling_wait h =
     (case ADC16_GetChannelStatusFlags h of
        (done, h') \<Rightarrow> if done then Some h' else ADC_ConvertOnce_Polling_wait h')"

declare ADC_ConvertOnce_Polling_wait.simps [code]

definition ADC_ConvertOnce_Polling :: "adc_state \<Rightarrow> adc16 \<Rightarrow> fault + (u16 \<times> adc16)" where
  "ADC_ConvertOnce_Polling s h =
     (let h1 = ADC16_SetChannelConfig (s_activeChannel s) h
      in case ADC_ConvertOnce_Polling_wait h1 of
           None \<Rightarrow> Inl Hang
         | Some h2 \<Rightarrow> Inr (ADC16_GetChannelConversionValue h2, h2))"

text \<open>\<^verbatim>\<open>ADC_InitModule\<close> resets the module state; the buffer contents and the ASCII buffer are
  not touched. Its calls into the vendor driver configure the peripheral and are outside the
  model.\<close>

definition ADC_InitModule :: "adc_state \<Rightarrow> adc_state" where
  "ADC_InitModule s =
     s\<lparr>s_activeChannel := ADC16_DEFAULT_CHANNEL, s_lastKickMs := 0,
       s_tempIndex := 0, s_tempCount := 0, s_lastTempC := 0\<rparr>"

definition ADC_SetChannel :: "u32 \<Rightarrow> adc_state \<Rightarrow> adc_state" where
  "ADC_SetChannel ch s = s\<lparr>s_activeChannel := ch\<rparr>"

definition ADC_Service :: "u32 \<Rightarrow> adc_state \<times> adc16 \<Rightarrow> fault + (adc_state \<times> adc16)" where
  "ADC_Service tick_ms c =
     (case c of (s, h) \<Rightarrow>
        if tick_ms - s_lastKickMs s \<ge> ADC_SAMPLE_PERIOD_MS then
          (let s1 = s\<lparr>s_lastKickMs := tick_ms\<rparr>
           in case ADC_ConvertOnce_Polling s1 h of
                Inl e \<Rightarrow> Inl e
              | Inr (counts, h') \<Rightarrow>
                  (let s2 = s1\<lparr>s_lastTempC := ADC_CountsToTempC counts\<rparr>
                   in case ADC_PushTemp (s_lastTempC s2) s2 of
                        Inl e \<Rightarrow> Inl e
                      | Inr s3 \<Rightarrow> Inr (s3, h')))
        else Inr (s, h))"

text \<open>A sequence of calls of the service, one per tick value of the list.\<close>

fun ADC_Service_calls :: "u32 list \<Rightarrow> adc_state \<times> adc16 \<Rightarrow> fault + (adc_state \<times> adc16)" where
  "ADC_Service_calls [] c = Inr c"
| "ADC_Service_calls (t # ts) c =
     (case ADC_Service t c of Inl e \<Rightarrow> Inl e | Inr c' \<Rightarrow> ADC_Service_calls ts c')"

text \<open>A converter that answers every conversion after finitely many status reads.\<close>

definition adc16_responsive :: "adc16 \<Rightarrow> bool" where
  "adc16_responsive h = (\<forall>k. \<exists>n. COCO h k n)"

text \<open>The number of conversions that a sequence of calls starts, if the calls return.\<close>

definition ADC_Service_conversions :: "u32 list \<Rightarrow> adc_state \<times> adc16 \<Rightarrow> nat option" where
  "ADC_Service_conversions ticks c =
     (case ADC_Service_calls ticks c of
        Inl e \<Rightarrow> None
      | Inr (s', h') \<Rightarrow> Some (n_started h' - n_started (snd c)))"

text \<open>A converter for the examples: every conversion is done at the third status read and
  gives the raw code \<open>v\<close>.\<close>

definition adc16_example :: "u16 \<Rightarrow> adc16" where
  "adc16_example v =
     \<lparr>COCO = (\<lambda>k n. 2 \<le> n), R = (\<lambda>k. v), n_started = 0, polls = 0, channel = 0\<rparr>"

text \<open>The state invariant of the module: the arrays have their declared sizes and the ring
  index and count stay inside the window.\<close>

definition adc_inv :: "adc_state \<Rightarrow> bool" where
  "adc_inv s = (adc_wf s \<and> unat (s_tempIndex s) < 5 \<and> unat (s_tempCount s) \<le> 5)"

text \<open>The ring buffer \<open>s\<close> holds the history \<open>hist\<close> of pushed values (oldest first): the
  \<open>j\<close>-th pushed value sits in slot \<open>j mod 5\<close> as long as it is among the last five.\<close>

definition ring_holds :: "adc_state \<Rightarrow> u8 list \<Rightarrow> bool" where
  "ring_holds s hist =
     (length (s_tempBuf s) = 5 \<and>
      unat (s_tempCount s) = min 5 (length hist) \<and>
      unat (s_tempIndex s) = length hist mod 5 \<and>
      (\<forall>j < length hist. length hist \<le> j + 5 \<longrightarrow> s_tempBuf s ! (j mod 5) = hist ! j))"

section \<open>Scheduler\<close>

text \<open>Modelled from the spec: the header RMS.h, which declares \<^verbatim>\<open>ThdObj\<close> and the thread
  states, is not among the sources. The field names and their order are those the source
  uses (the initialisers of \<^verbatim>\<open>ThreadTable\<close>, the handler and the main loop); the spec's data
  model gives the period as a positive integer and the elapsed time as an integer counter, so
  both are natural numbers here. In this program they never exceed 10.\<close>

datatype ThdState = STANDBY | READY | EXECUTE

text \<open>The values of the function pointer \<^verbatim>\<open>ThreadHandler\<close>: the addresses of the three
  thread functions.\<close>

datatype ThdFn = Addr_Thd_2ms | Addr_Thd_5ms | Addr_Thd_10ms

record ThdObj =
  ThreadHandler :: ThdFn
  ThreadState :: ThdState
  ThreadRate :: nat
  SystemTime :: nat

text \<open>What the main loop calls, in order: \<open>Ran i f st\<close> is the call of the handler \<open>f\<close> of the
  descriptor at index \<open>i\<close>, made while the state of that descriptor is \<open>st\<close>; \<open>Idled i\<close> is the
  call of the idle hook for the descriptor at index \<open>i\<close>. The log \<open>calls\<close> is not a variable
  of the program; the call sites append to it so that the order of the calls can be stated.\<close>

datatype call = Ran nat ThdFn ThdState | Idled nat

record sched =
  ThreadTable :: "ThdObj list"
  pitIsrFlag :: bool
  counter_2ms :: u8
  counter_5ms :: u8
  counter_10ms :: u8
  calls :: "call list"

definition sched_startup :: sched where
  "sched_startup =
     \<lparr>ThreadTable =
        [\<lparr>ThreadHandler = Addr_Thd_2ms, ThreadState = STANDBY, ThreadRate = 2, SystemTime = 0\<rparr>,
         \<lparr>ThreadHandler = Addr_Thd_5ms, ThreadState = STANDBY, ThreadRate = 5, SystemTime = 0\<rparr>,
         \<lparr>ThreadHandler = Addr_Thd_10ms, ThreadState = STANDBY, ThreadRate = 10, SystemTime = 0\<rparr>],
      pitIsrFlag = False, counter_2ms = 0, counter_5ms = 0, counter_10ms = 0, calls = []\<rparr>"

definition log_call :: "call \<Rightarrow> sched \<Rightarrow> sched" where
  "log_call c s = s\<lparr>calls := calls s @ [c]\<rparr>"

text \<open>The thread functions: each increments its own static 8-bit counter. The idle hook has
  an empty body.\<close>

definition Thd_2ms :: "sched \<Rightarrow> sched" where
  "Thd_2ms s = s\<lparr>counter_2ms := counter_2ms s + 1\<rparr>"

definition Thd_5ms :: "sched \<Rightarrow> sched" where
  "Thd_5ms s = s\<lparr>counter_5ms := counter_5ms s + 1\<rparr>"

definition Thd_10ms :: "sched \<Rightarrow> sched" where
  "Thd_10ms s = s\<lparr>counter_10ms := counter_10ms s + 1\<rparr>"

definition Thd_idle :: "sched \<Rightarrow> sched" where
  "Thd_idle s = s"

text \<open>The call through the function pointer of the descriptor at index \<open>i\<close>: the call is
  logged and the function the pointer holds is run.\<close>

definition ThreadHandler_call :: "nat \<Rightarrow> sched \<Rightarrow> sched" where
  "ThreadHandler_call i s =
     (let d = ThreadTable s ! i;
          s1 = log_call (Ran i (ThreadHandler d) (ThreadState d)) s
      in case ThreadHandler d of
           Addr_Thd_2ms \<Rightarrow> Thd_2ms s1
         | Addr_Thd_5ms \<Rightarrow> Thd_5ms s1
         | Addr_Thd_10ms \<Rightarrow> Thd_10ms s1)"

text \<open>The interrupt handler \<^verbatim>\<open>PIT_LED_HANDLER\<close>: the body of its loop, for the descriptor
  at index \<open>tableCounter\<close>, and the loop over the three descriptors. The table has three
  entries and the loop bound is the constant 3.\<close>

definition PIT_LED_HANDLER_body :: "nat \<Rightarrow> ThdObj list \<Rightarrow> ThdObj list" where
  "PIT_LED_HANDLER_body tableCounter tbl =
     (let d = tbl ! tableCounter;
          d1 = d\<lparr>SystemTime := SystemTime d + 1\<rparr>;
          d2 = (if SystemTime d1 \<ge> ThreadRate d1
                then d1\<lparr>ThreadState := READY, SystemTime := 0\<rparr> else d1)
      in tbl[tableCounter := d2])"

function PIT_LED_HANDLER_loop :: "nat \<Rightarrow> ThdObj list \<Rightarrow> ThdObj list" where
  "PIT_LED_HANDLER_loop tableCounter tbl =
     (if tableCounter < 3
      then PIT_LED_HANDLER_loop (tableCounter + 1) (PIT_LED_HANDLER_body tableCounter tbl)
      else tbl)"
  by pat_completeness auto
termination
  by (relation "measure (\<lambda>(tableCounter, tbl). 3 - tableCounter)") auto

declare PIT_LED_HANDLER_loop.simps [simp del]

definition PIT_LED_HANDLER :: "sched \<Rightarrow> sched" where
  "PIT_LED_HANDLER s =
     (let s1 = s\<lparr>pitIsrFlag := True\<rparr>
      in s1\<lparr>ThreadTable := PIT_LED_HANDLER_loop 0 (ThreadTable s1)\<rparr>)"

text \<open>The for loop in the body of the endless loop of \<^verbatim>\<open>main\<close>, one scheduling round, read
  as sequential code: the body of the for loop for the descriptor at index \<open>tableCounter\<close>,
  and the loop.\<close>

definition set_ThreadState :: "nat \<Rightarrow> ThdState \<Rightarrow> sched \<Rightarrow> sched" where
  "set_ThreadState i st s =
     s\<lparr>ThreadTable := (ThreadTable s)[i := (ThreadTable s ! i)\<lparr>ThreadState := st\<rparr>]\<rparr>"





text \<open>The timer interrupt is enabled before the endless loop of \<^verbatim>\<open>main\<close> is entered, so the
  handler can run between any two steps of the loop. The steps of main are the accesses to
  the table and the calls: at the index \<open>tableCounter\<close>, main tests the state of the
  descriptor (\<open>Test\<close>, which is also the test of the for loop: at index 3 the for loop is left
  and the endless loop starts it again at index 0), writes EXECUTE (\<open>SetExecute\<close>), calls the
  handler (\<open>CallHandler\<close>), writes STANDBY (\<open>SetStandby\<close>), or calls the idle hook
  (\<open>CallIdle\<close>). The position of main is its index and its next step. The thread functions
  touch only their own counters, which the interrupt handler never accesses, so a call is one
  step.\<close>

datatype point = Test | SetExecute | CallHandler | SetStandby | CallIdle

fun main_step :: "(nat \<times> point) \<times> sched \<Rightarrow> (nat \<times> point) \<times> sched" where
  "main_step ((tableCounter, Test), s) =
     (if tableCounter < 3 then
        (if ThreadState (ThreadTable s ! tableCounter) = READY
         then ((tableCounter, SetExecute), s)
         else ((tableCounter, CallIdle), s))
      else ((0, Test), s))"
| "main_step ((tableCounter, SetExecute), s) =
     ((tableCounter, CallHandler), set_ThreadState tableCounter EXECUTE s)"
| "main_step ((tableCounter, CallHandler), s) =
     ((tableCounter, SetStandby), ThreadHandler_call tableCounter s)"
| "main_step ((tableCounter, SetStandby), s) =
     ((tableCounter + 1, Test), set_ThreadState tableCounter STANDBY s)"
| "main_step ((tableCounter, CallIdle), s) =
     ((tableCounter + 1, Test), Thd_idle (log_call (Idled tableCounter) s))"

text \<open>Main runs without interruption up to and including the exit of the for loop.\<close>

fun point_weight :: "point \<Rightarrow> nat" where
  "point_weight Test = 3"
| "point_weight SetExecute = 2"
| "point_weight CallHandler = 1"
| "point_weight SetStandby = 0"
| "point_weight CallIdle = 0"

function main_until_exit :: "(nat \<times> point) \<times> sched \<Rightarrow> (nat \<times> point) \<times> sched" where
  "main_until_exit c =
     (if fst (fst c) < 3 then main_until_exit (main_step c) else main_step c)"
  by pat_completeness auto
termination
proof (relation "measure (\<lambda>c. 4 * (3 - fst (fst c)) + point_weight (snd (fst c)))")
  show "wf (measure (\<lambda>c :: (nat \<times> point) \<times> sched.
      4 * (3 - fst (fst c)) + point_weight (snd (fst c))))"
    by simp
next
  fix c :: "(nat \<times> point) \<times> sched"
  assume "fst (fst c) < 3"
  then show "(main_step c, c)
      \<in> measure (\<lambda>c. 4 * (3 - fst (fst c)) + point_weight (snd (fst c)))"
    by (cases c rule: main_step.cases) auto
qed

declare main_until_exit.simps [simp del]

text \<open>An execution of the scheduler from a position of main: \<open>Tick\<close> is the timer interrupt,
  whose handler runs to completion before main continues; \<open>Main\<close> is the next step of main;
  \<open>Round\<close> is main running without interruption to the end of the round it is in. \<open>run\<close> is
  an execution that starts where main enters its loop.\<close>

datatype step = Tick | Main | Round

fun exec :: "step list \<Rightarrow> (nat \<times> point) \<times> sched \<Rightarrow> (nat \<times> point) \<times> sched" where
  "exec [] c = c"
| "exec (Tick # xs) c = exec xs (fst c, PIT_LED_HANDLER (snd c))"
| "exec (Main # xs) c = exec xs (main_step c)"
| "exec (Round # xs) c = exec xs (main_until_exit c)"

definition run :: "step list \<Rightarrow> sched \<Rightarrow> sched" where
  "run steps s = snd (exec steps ((0, Test), s))"

text \<open>What the interrupt handler does to one descriptor; what a round that is not interrupted
  does to one descriptor and which call it makes for it; whether such a round runs the
  thread function \<open>f\<close> for a descriptor.\<close>

definition tick_ThdObj :: "ThdObj \<Rightarrow> ThdObj" where
  "tick_ThdObj d =
     (if SystemTime d + 1 \<ge> ThreadRate d
      then d\<lparr>ThreadState := READY, SystemTime := 0\<rparr>
      else d\<lparr>SystemTime := SystemTime d + 1\<rparr>)"

definition round_ThdObj :: "ThdObj \<Rightarrow> ThdObj" where
  "round_ThdObj d = (if ThreadState d = READY then d\<lparr>ThreadState := STANDBY\<rparr> else d)"









section \<open>Word arithmetic used below\<close>

lemma unat_u8_bound: "unat (c :: u8) < 256"
  using unsigned_less [of c, where 'a = nat] by simp

lemma unat_u16_bound: "unat (c :: u16) < 65536"
  using unsigned_less [of c, where 'a = nat] by simp

lemma unat_ucast_u16_u32: "unat (ucast (c :: u16) :: u32) = unat c"
  using unat_u16_bound [of c] by (simp add: unsigned_ucast_eq take_bit_nat_eq_self_iff)

lemma unat_ucast_u8_u32: "unat (ucast (c :: u8) :: u32) = unat c"
  using unat_u8_bound [of c] by (simp add: unsigned_ucast_eq take_bit_nat_eq_self_iff)

lemma unat_ucast_u8_u16: "unat (ucast (c :: u8) :: u16) = unat c"
  using unat_u8_bound [of c] by (simp add: unsigned_ucast_eq take_bit_nat_eq_self_iff)

lemma unat_ucast_u32_u8: "unat (c :: u32) < 256 \<Longrightarrow> unat (ucast c :: u8) = unat c"
  by (simp add: unsigned_ucast_eq take_bit_nat_eq_self_iff)

lemma unat_ucast_u16_u8: "unat (c :: u16) < 256 \<Longrightarrow> unat (ucast c :: u8) = unat c"
  by (simp add: unsigned_ucast_eq take_bit_nat_eq_self_iff)

section \<open>Raw counts to degrees\<close>

lemma unat_ADC_CountsToTempC:
  "unat (ADC_CountsToTempC c) = min 40 (unat c * 40 div 4096)"
proof -
  have prod: "unat ((ucast c :: u32) * 40) = unat c * 40"
    using unat_u16_bound [of c] by (simp add: unat_word_ariths unat_ucast_u16_u32)
  have quot: "unat (((ucast c :: u32) * 40) div 4096) = unat c * 40 div 4096"
    by (simp add: unat_div prod)
  show ?thesis
  proof (cases "unat c * 40 div 4096 > 40")
    case True
    then show ?thesis
      by (simp add: ADC_CountsToTempC_def TEMP_MAX_C_def ADC_FULL_SCALE_COUNTS_def Let_def
          word_less_nat_alt quot)
  next
    case False
    then have "unat (ucast (ucast c * 40 div 4096 :: u32) :: u8) = unat c * 40 div 4096"
      by (simp add: unat_ucast_u32_u8 quot)
    with False show ?thesis
      by (simp add: ADC_CountsToTempC_def TEMP_MAX_C_def ADC_FULL_SCALE_COUNTS_def Let_def
          word_less_nat_alt quot)
  qed
qed

text \<open>C1. The raw code 4095, one less than full scale, is mapped to 39 and not to the
  maximum 40: the quotient 4095 * 40 / 4096 is truncated. Half of full scale, 2048, is mapped
  to 20.\<close>

theorem ADC_CountsToTempC_max_code:
  "ADC_CountsToTempC 4095 = 39 \<and> ADC_CountsToTempC 4095 \<noteq> 40 \<and> ADC_CountsToTempC 2048 = 20"
  by (simp add: ADC_CountsToTempC_def TEMP_MAX_C_def ADC_FULL_SCALE_COUNTS_def)

text \<open>C6. For every 16-bit raw code the mapping is the integer quotient of
  \<open>counts * 40\<close> by 4096, clamped to the range from 0 to 40, and it is monotonic
  non-decreasing in the raw code.\<close>

theorem ADC_CountsToTempC_clamp_mono:
  "uint (ADC_CountsToTempC c) = max 0 (min 40 (uint c * 40 div 4096)) \<and>
   (c \<le> d \<longrightarrow> ADC_CountsToTempC c \<le> ADC_CountsToTempC d)"
proof
  have quot: "int (unat c * 40 div 4096) = uint c * 40 div 4096"
    by (simp add: zdiv_int)
  have "uint (ADC_CountsToTempC c) = int (min 40 (unat c * 40 div 4096))"
    by (simp only: unat_ADC_CountsToTempC [symmetric]) simp
  also have "\<dots> = min 40 (int (unat c * 40 div 4096))"
    by (simp only: of_nat_min of_nat_numeral)
  also have "\<dots> = min 40 (uint c * 40 div 4096)"
    by (simp only: quot)
  also have "\<dots> = max 0 (min 40 (uint c * 40 div 4096))"
    using quot [symmetric] by simp
  finally show "uint (ADC_CountsToTempC c) = max 0 (min 40 (uint c * 40 div 4096))" .
next
  show "c \<le> d \<longrightarrow> ADC_CountsToTempC c \<le> ADC_CountsToTempC d"
  proof
    assume "c \<le> d"
    then have "unat c * 40 div 4096 \<le> unat d * 40 div 4096"
      by (simp add: word_le_nat_alt div_le_mono)
    then show "ADC_CountsToTempC c \<le> ADC_CountsToTempC d"
      by (simp add: word_le_nat_alt unat_ADC_CountsToTempC min.coboundedI2)
  qed
qed

theorem ADC_CountsToTempC_clamp_mono_witness:
  "uint (ADC_CountsToTempC 65535) = max 0 (min 40 (uint (65535 :: u16) * 40 div 4096)) \<and>
   (1000 :: u16) \<le> 3000 \<and> ADC_CountsToTempC 1000 \<le> ADC_CountsToTempC 3000 \<and>
   ADC_CountsToTempC 1000 = 9 \<and> ADC_CountsToTempC 3000 = 29 \<and> ADC_CountsToTempC 65535 = 40"
  using ADC_CountsToTempC_clamp_mono [of 65535 0] ADC_CountsToTempC_clamp_mono [of 1000 3000]
  by (simp add: ADC_CountsToTempC_def TEMP_MAX_C_def ADC_FULL_SCALE_COUNTS_def)

section \<open>Rolling buffer\<close>

lemma unat_index_next:
  "unat (ucast ((ucast (i :: u8) + 1 :: u32) mod ADC_AVG_WINDOW) :: u8) = (unat i + 1) mod 5"
proof -
  have "unat (ucast i + 1 :: u32) = unat i + 1"
    using unat_u8_bound [of i] by (simp add: unat_word_ariths unat_ucast_u8_u32)
  then have m: "unat ((ucast i + 1 :: u32) mod 5) = (unat i + 1) mod 5"
    by (simp add: unat_mod)
  have "(unat i + 1) mod 5 < 256"
    by (rule less_trans [of _ 5]) simp_all
  with m show ?thesis
    by (simp add: ADC_AVG_WINDOW_def unat_ucast_u32_u8)
qed

lemma count_below_window:
  "((ucast (c :: u8) :: u32) < ADC_AVG_WINDOW) = (unat c < 5)"
  by (simp add: ADC_AVG_WINDOW_def word_less_nat_alt unat_ucast_u8_u32)

lemma unat_count_next: "unat (c :: u8) < 5 \<Longrightarrow> unat (c + 1) = unat c + 1"
  by (simp add: unat_word_ariths)

lemma ADC_PushTemp_fields:
  assumes "unat (s_tempIndex s) < length (s_tempBuf s)"
  shows "\<exists>s'. ADC_PushTemp v s = Inr s' \<and>
           s_tempBuf s' = (s_tempBuf s)[unat (s_tempIndex s) := v] \<and>
           unat (s_tempIndex s') = (unat (s_tempIndex s) + 1) mod 5 \<and>
           unat (s_tempCount s') =
             (if unat (s_tempCount s) < 5 then unat (s_tempCount s) + 1 else unat (s_tempCount s)) \<and>
           s_activeChannel s' = s_activeChannel s \<and> s_lastKickMs s' = s_lastKickMs s \<and>
           s_lastTempC s' = s_lastTempC s \<and> gAdcTempAscii s' = gAdcTempAscii s"
  using assms
  by (simp add: ADC_PushTemp_def Let_def unat_index_next count_below_window unat_count_next)

lemma ADC_PushTemp_adc_inv:
  assumes "adc_inv s"
  shows "\<exists>s'. ADC_PushTemp v s = Inr s' \<and> adc_inv s' \<and>
           s_activeChannel s' = s_activeChannel s \<and> s_lastKickMs s' = s_lastKickMs s \<and>
           s_lastTempC s' = s_lastTempC s"
proof -
  from assms have "unat (s_tempIndex s) < length (s_tempBuf s)"
    by (simp add: adc_inv_def adc_wf_def)
  from ADC_PushTemp_fields [OF this, of v] obtain s' where
    s': "ADC_PushTemp v s = Inr s'"
      "s_tempBuf s' = (s_tempBuf s)[unat (s_tempIndex s) := v]"
      "unat (s_tempIndex s') = (unat (s_tempIndex s) + 1) mod 5"
      "unat (s_tempCount s') =
         (if unat (s_tempCount s) < 5 then unat (s_tempCount s) + 1 else unat (s_tempCount s))"
      "s_activeChannel s' = s_activeChannel s" "s_lastKickMs s' = s_lastKickMs s"
      "s_lastTempC s' = s_lastTempC s" "gAdcTempAscii s' = gAdcTempAscii s"
    by blast
  from assms s' have "adc_inv s'"
    by (simp add: adc_inv_def adc_wf_def)
  with s' show ?thesis by blast
qed

lemma ring_slot_distinct:
  assumes "j < n" "n \<le> j + 4"
  shows "j mod 5 \<noteq> n mod (5 :: nat)"
proof
  assume eq: "j mod 5 = n mod 5"
  from assms(1) have "j \<le> n" by simp
  from mod_eq_dvd_iff_nat [OF this, of 5] eq have "5 dvd n - j"
    by simp
  moreover from assms have "0 < n - j" "n - j < 5" by simp_all
  ultimately show False
    using dvd_imp_le [of 5 "n - j"] by simp
qed


lemma ring_holds_init:
  "length (s_tempBuf s) = 5 \<Longrightarrow> ring_holds (ADC_InitModule s) []"
  by (simp add: ring_holds_def ADC_InitModule_def)

lemma ADC_PushTemp_ring_holds:
  assumes "ring_holds s hist"
  shows "\<exists>s'. ADC_PushTemp v s = Inr s' \<and> ring_holds s' (hist @ [v]) \<and>
           gAdcTempAscii s' = gAdcTempAscii s"
proof -
  let ?n = "length hist"
  from assms have len: "length (s_tempBuf s) = 5"
    and cnt: "unat (s_tempCount s) = min 5 ?n"
    and idx: "unat (s_tempIndex s) = ?n mod 5"
    and slots: "\<And>j. j < ?n \<Longrightarrow> ?n \<le> j + 5 \<Longrightarrow> s_tempBuf s ! (j mod 5) = hist ! j"
    by (simp_all add: ring_holds_def)
  from len idx have "unat (s_tempIndex s) < length (s_tempBuf s)" by simp
  from ADC_PushTemp_fields [OF this, of v] obtain s' where
    push: "ADC_PushTemp v s = Inr s'"
    and buf': "s_tempBuf s' = (s_tempBuf s)[?n mod 5 := v]"
    and idx': "unat (s_tempIndex s') = (?n mod 5 + 1) mod 5"
    and cnt': "unat (s_tempCount s') = (if min 5 ?n < 5 then min 5 ?n + 1 else min 5 ?n)"
    and ascii': "gAdcTempAscii s' = gAdcTempAscii s"
    unfolding idx cnt by blast
  have "length (s_tempBuf s') = 5"
    by (simp add: buf' len)
  moreover have "unat (s_tempCount s') = min 5 (length (hist @ [v]))"
    by (simp add: cnt' min_def)
  moreover have "unat (s_tempIndex s') = length (hist @ [v]) mod 5"
    unfolding idx' by (simp add: mod_Suc_eq)
  moreover have "s_tempBuf s' ! (j mod 5) = (hist @ [v]) ! j"
    if j: "j < length (hist @ [v])" and recent: "length (hist @ [v]) \<le> j + 5" for j
  proof (cases "j = ?n")
    case True
    then show ?thesis by (simp add: buf' len)
  next
    case False
    with j recent have less: "j < ?n" and near: "?n \<le> j + 4" by simp_all
    then have "j mod 5 \<noteq> ?n mod 5" by (rule ring_slot_distinct)
    then have "s_tempBuf s' ! (j mod 5) = s_tempBuf s ! (j mod 5)"
      by (simp add: buf')
    also from less near have "\<dots> = hist ! j" by (simp add: slots)
    finally show ?thesis using less by (simp add: nth_append)
  qed
  ultimately have "ring_holds s' (hist @ [v])"
    unfolding ring_holds_def by blast
  with push ascii' show ?thesis by blast
qed

lemma ADC_PushTemp_all_ring_holds:
  "ring_holds s hist \<Longrightarrow>
   \<exists>s'. ADC_PushTemp_all vs s = Inr s' \<and> ring_holds s' (hist @ vs) \<and>
        gAdcTempAscii s' = gAdcTempAscii s"
proof (induction vs arbitrary: s hist)
  case Nil
  then show ?case by simp
next
  case (Cons v vs)
  from ADC_PushTemp_ring_holds [OF Cons.prems, of v] obtain s1 where
    s1: "ADC_PushTemp v s = Inr s1" "ring_holds s1 (hist @ [v])"
      "gAdcTempAscii s1 = gAdcTempAscii s"
    by blast
  from Cons.IH [OF s1(2)] s1(1,3) show ?case by simp
qed

lemma ADC_PushTemp_all_init:
  assumes "adc_wf s"
  shows "\<exists>s'. ADC_PushTemp_all vs (ADC_InitModule s) = Inr s' \<and> ring_holds s' vs"
proof -
  from assms have "ring_holds (ADC_InitModule s) []"
    by (simp add: adc_wf_def ring_holds_init)
  from ADC_PushTemp_all_ring_holds [OF this, of vs] show ?thesis by auto
qed


lemma ADC_GetAvgTempC_loop_sum:
  "unat cnt \<le> length buf \<Longrightarrow>
   unat acc + (\<Sum>k = unat i..<unat cnt. unat (buf ! k)) < 65536 \<Longrightarrow>
   \<exists>r. ADC_GetAvgTempC_loop buf cnt i acc = Inr r \<and>
       unat r = unat acc + (\<Sum>k = unat i..<unat cnt. unat (buf ! k))"
proof (induction buf cnt i acc rule: ADC_GetAvgTempC_loop.induct)
  case (1 buf cnt i acc)
  show ?case
  proof (cases "i < cnt")
    case False
    then have "unat cnt \<le> unat i" by (simp add: word_less_nat_alt)
    with False show ?thesis
      by (subst ADC_GetAvgTempC_loop.simps) simp
  next
    case True
    then have lt: "unat i < unat cnt" by (simp add: word_less_nat_alt)
    with "1.prems"(1) have inb: "unat i < length buf" by simp
    from lt unat_u8_bound [of cnt] have next_i: "unat (i + 1) = unat i + 1"
      by (simp add: unat_word_ariths)
    from lt have split: "(\<Sum>k = unat i..<unat cnt. unat (buf ! k)) =
        unat (buf ! unat i) + (\<Sum>k = unat i + 1..<unat cnt. unat (buf ! k))"
      by (simp add: sum.atLeast_Suc_lessThan)
    with "1.prems"(2) have small: "unat acc + unat (buf ! unat i) < 65536" by simp
    then have next_acc: "unat (acc + ucast (buf ! unat i)) = unat acc + unat (buf ! unat i)"
      by (simp add: unat_word_ariths unat_ucast_u8_u16)
    from "1.prems"(2) split
    have "unat (acc + ucast (buf ! unat i)) +
          (\<Sum>k = unat (i + 1)..<unat cnt. unat (buf ! k)) < 65536"
      by (simp add: next_acc next_i)
    from "1.IH" [OF True inb "1.prems"(1) this] obtain r where
      r: "ADC_GetAvgTempC_loop buf cnt (i + 1) (acc + ucast (buf ! unat i)) = Inr r"
        "unat r = unat (acc + ucast (buf ! unat i)) +
           (\<Sum>k = unat (i + 1)..<unat cnt. unat (buf ! k))"
      by blast
    from True inb r(1) have "ADC_GetAvgTempC_loop buf cnt i acc = Inr r"
      by (subst ADC_GetAvgTempC_loop.simps) simp
    moreover from r(2) have "unat r = unat acc + (\<Sum>k = unat i..<unat cnt. unat (buf ! k))"
      by (simp add: next_acc next_i split)
    ultimately show ?thesis by blast
  qed
qed

lemma sum_u8_bound: "(\<Sum>k = 0..<n. unat (buf ! k :: u8)) \<le> 255 * n"
proof -
  have "(\<Sum>k = 0..<n. unat (buf ! k)) \<le> (\<Sum>k = 0..<n. 255)"
  proof (rule sum_mono)
    fix k
    from unat_u8_bound [of "buf ! k"] show "unat (buf ! k) \<le> 255" by simp
  qed
  then show ?thesis by simp
qed

lemma ADC_GetAvgTempC_mean:
  assumes len: "length (s_tempBuf s) = 5" and cnt: "unat (s_tempCount s) \<le> 5"
  shows "\<exists>a. ADC_GetAvgTempC s = Inr a \<and>
           unat a = (\<Sum>k = 0..<unat (s_tempCount s). unat (s_tempBuf s ! k))
                      div unat (s_tempCount s)"
proof (cases "s_tempCount s = 0")
  case True
  then show ?thesis by (simp add: ADC_GetAvgTempC_def)
next
  case False
  let ?n = "unat (s_tempCount s)"
  let ?total = "\<Sum>k = 0..<?n. unat (s_tempBuf s ! k)"
  from False have pos: "0 < ?n" by (simp add: unat_gt_0)
  have bound: "?total \<le> 255 * ?n" by (rule sum_u8_bound)
  with cnt have "?total < 65536" by simp
  with len cnt ADC_GetAvgTempC_loop_sum [of "s_tempCount s" "s_tempBuf s" 0 0]
  obtain r where r: "ADC_GetAvgTempC_loop (s_tempBuf s) (s_tempCount s) 0 0 = Inr r"
    "unat r = ?total"
    by auto
  have quot: "unat (r div ucast (s_tempCount s)) = ?total div ?n"
    by (simp add: unat_div unat_ucast_u8_u16 r(2))
  from bound pos have "?total div ?n \<le> 255"
    by (metis div_le_mono nonzero_mult_div_cancel_right less_numeral_extra(3))
  then have "unat (ucast (r div ucast (s_tempCount s)) :: u8) = ?total div ?n"
    by (simp add: unat_ucast_u16_u8 quot)
  with False r(1) show ?thesis
    by (simp add: ADC_GetAvgTempC_def)
qed

lemma sum_list_unat_nth:
  "sum_list (map unat (xs :: u8 list)) = (\<Sum>k = 0..<length xs. unat (xs ! k))"
proof -
  have "sum_list (map unat xs) = (\<Sum>k = 0..<length (map unat xs). map unat xs ! k)"
    by (rule sum_list_sum_nth)
  also have "\<dots> = (\<Sum>k = 0..<length xs. unat (xs ! k))"
    by (rule sum.cong) simp_all
  finally show ?thesis .
qed

lemma ring_sum_partial:
  assumes "ring_holds s hist" and short: "length hist < 5"
  shows "unat (s_tempCount s) = length hist"
    and "(\<Sum>k = 0..<unat (s_tempCount s). unat (s_tempBuf s ! k)) = sum_list (map unat hist)"
    and "take (length hist) (s_tempBuf s) = hist"
proof -
  from assms show cnt: "unat (s_tempCount s) = length hist"
    by (simp add: ring_holds_def)
  from assms have slot: "s_tempBuf s ! k = hist ! k" if "k < length hist" for k
  proof -
    from that short have "k mod 5 = k" by simp
    moreover from assms(1) that short have "s_tempBuf s ! (k mod 5) = hist ! k"
      by (simp add: ring_holds_def)
    ultimately show ?thesis by simp
  qed
  have "(\<Sum>k = 0..<length hist. unat (s_tempBuf s ! k)) = (\<Sum>k = 0..<length hist. unat (hist ! k))"
    by (rule sum.cong) (simp_all add: slot)
  then show "(\<Sum>k = 0..<unat (s_tempCount s). unat (s_tempBuf s ! k)) = sum_list (map unat hist)"
    by (simp add: cnt sum_list_unat_nth)
  from assms have "length (s_tempBuf s) = 5" by (simp add: ring_holds_def)
  with short show "take (length hist) (s_tempBuf s) = hist"
    by (intro nth_equalityI) (simp_all add: slot)
qed

lemma ring_slots_bij: "bij_betw (\<lambda>j. j mod 5) {m..<m + 5} {0..<5 :: nat}"
  unfolding bij_betw_def
proof
  show inj: "inj_on (\<lambda>j. j mod 5) {m..<m + 5}"
  proof (rule inj_onI)
    fix j k
    assume "j \<in> {m..<m + 5}" "k \<in> {m..<m + 5}" and eq: "j mod 5 = k mod 5"
    then have range: "m \<le> j" "j < m + 5" "m \<le> k" "k < m + 5" by simp_all
    show "j = k"
    proof (cases j k rule: linorder_cases)
      case less
      with range have "k \<le> j + 4" by simp
      with less have "j mod 5 \<noteq> k mod 5" by (rule ring_slot_distinct)
      with eq show ?thesis by simp
    next
      case greater
      with range have "j \<le> k + 4" by simp
      with greater have "k mod 5 \<noteq> j mod 5" by (rule ring_slot_distinct)
      with eq show ?thesis by simp
    qed
  qed
  have "card ((\<lambda>j. j mod 5) ` {m..<m + 5}) = card {m..<m + 5}"
    by (rule card_image [OF inj])
  then have "card ((\<lambda>j. j mod 5) ` {m..<m + 5}) = card {0..<5 :: nat}"
    by simp
  moreover have "(\<lambda>j. j mod 5) ` {m..<m + 5} \<subseteq> {0..<5}"
    by auto
  ultimately show "(\<lambda>j. j mod 5) ` {m..<m + 5} = {0..<5}"
    by (intro card_subset_eq) simp_all
qed

lemma ring_sum_full:
  assumes "ring_holds s hist" and full: "5 \<le> length hist"
  shows "unat (s_tempCount s) = 5"
    and "(\<Sum>k = 0..<unat (s_tempCount s). unat (s_tempBuf s ! k)) =
         sum_list (map unat (drop (length hist - 5) hist))"
proof -
  let ?m = "length hist - 5"
  from assms show cnt: "unat (s_tempCount s) = 5"
    by (simp add: ring_holds_def)
  from full have n: "length hist = ?m + 5" by simp
  have "(\<Sum>k = 0..<5. unat (s_tempBuf s ! k)) = (\<Sum>j = ?m..<?m + 5. unat (s_tempBuf s ! (j mod 5)))"
    by (rule sum.reindex_bij_betw [OF ring_slots_bij, symmetric])
  also have "\<dots> = (\<Sum>j = ?m..<?m + 5. unat (hist ! j))"
  proof (rule sum.cong)
    fix j
    assume "j \<in> {?m..<?m + 5}"
    with n have "j < length hist" "length hist \<le> j + 5" by simp_all
    with assms(1) show "unat (s_tempBuf s ! (j mod 5)) = unat (hist ! j)"
      by (simp add: ring_holds_def)
  qed simp
  also have "\<dots> = (\<Sum>k = 0..<5. unat (hist ! (?m + k)))"
    using sum.shift_bounds_nat_ivl [of "\<lambda>j. unat (hist ! j)" 0 ?m 5]
    by (simp add: add.commute)
  also have "\<dots> = (\<Sum>k = 0..<length (drop ?m hist). unat (drop ?m hist ! k))"
    using full by (intro sum.cong) simp_all
  finally show "(\<Sum>k = 0..<unat (s_tempCount s). unat (s_tempBuf s ! k)) =
         sum_list (map unat (drop (length hist - 5) hist))"
    by (simp add: cnt sum_list_unat_nth)
qed

text \<open>C3. From the initialised module, the average is 0 when nothing has been pushed; after
  fewer than five pushes it is the truncated mean of the values pushed so far, the divisor
  being their number; after five or more pushes it is the truncated mean of exactly the
  last five pushed values. No array access of the pushes or of the average is out of bounds.\<close>

theorem ADC_GetAvgTempC_rolling_mean:
  assumes "adc_wf s"
  shows "ADC_GetAvgTempC (ADC_InitModule s) = Inr 0 \<and>
    (vs \<noteq> [] \<and> length vs < 5 \<longrightarrow>
       (\<exists>s' a. ADC_PushTemp_all vs (ADC_InitModule s) = Inr s' \<and> ADC_GetAvgTempC s' = Inr a \<and>
          unat a = sum_list (map unat vs) div length vs)) \<and>
    (5 \<le> length ws \<longrightarrow>
       (\<exists>s' a. ADC_PushTemp_all ws (ADC_InitModule s) = Inr s' \<and> ADC_GetAvgTempC s' = Inr a \<and>
          unat a = sum_list (map unat (drop (length ws - 5) ws)) div 5))"
proof (intro conjI impI)
  show "ADC_GetAvgTempC (ADC_InitModule s) = Inr 0"
    by (simp add: ADC_GetAvgTempC_def ADC_InitModule_def)
next
  assume "vs \<noteq> [] \<and> length vs < 5"
  then have short: "length vs < 5" by simp
  from ADC_PushTemp_all_init [OF assms, of vs] obtain s' where
    s': "ADC_PushTemp_all vs (ADC_InitModule s) = Inr s'" "ring_holds s' vs"
    by blast
  from s'(2) have "length (s_tempBuf s') = 5" "unat (s_tempCount s') \<le> 5"
    by (simp_all add: ring_holds_def)
  from ADC_GetAvgTempC_mean [OF this] obtain a where
    a: "ADC_GetAvgTempC s' = Inr a"
      "unat a = (\<Sum>k = 0..<unat (s_tempCount s'). unat (s_tempBuf s' ! k)) div unat (s_tempCount s')"
    by blast
  from a(2) have "unat a = sum_list (map unat vs) div unat (s_tempCount s')"
    by (simp only: ring_sum_partial(2) [OF s'(2) short])
  then have "unat a = sum_list (map unat vs) div length vs"
    by (simp only: ring_sum_partial(1) [OF s'(2) short])
  with s'(1) a(1)
  show "\<exists>s' a. ADC_PushTemp_all vs (ADC_InitModule s) = Inr s' \<and> ADC_GetAvgTempC s' = Inr a \<and>
          unat a = sum_list (map unat vs) div length vs"
    by blast
next
  assume full: "5 \<le> length ws"
  from ADC_PushTemp_all_init [OF assms, of ws] obtain s' where
    s': "ADC_PushTemp_all ws (ADC_InitModule s) = Inr s'" "ring_holds s' ws"
    by blast
  from s'(2) have "length (s_tempBuf s') = 5" "unat (s_tempCount s') \<le> 5"
    by (simp_all add: ring_holds_def)
  from ADC_GetAvgTempC_mean [OF this] obtain a where
    a: "ADC_GetAvgTempC s' = Inr a"
      "unat a = (\<Sum>k = 0..<unat (s_tempCount s'). unat (s_tempBuf s' ! k)) div unat (s_tempCount s')"
    by blast
  from a(2) have "unat a = sum_list (map unat (drop (length ws - 5) ws)) div unat (s_tempCount s')"
    by (simp only: ring_sum_full(2) [OF s'(2) full])
  then have "unat a = sum_list (map unat (drop (length ws - 5) ws)) div 5"
    by (simp only: ring_sum_full(1) [OF s'(2) full])
  with s'(1) a(1)
  show "\<exists>s' a. ADC_PushTemp_all ws (ADC_InitModule s) = Inr s' \<and> ADC_GetAvgTempC s' = Inr a \<and>
          unat a = sum_list (map unat (drop (length ws - 5) ws)) div 5"
    by blast
qed

theorem ADC_GetAvgTempC_rolling_mean_witness:
  "adc_wf adc_startup \<and>
   ADC_GetAvgTempC (ADC_InitModule adc_startup) = Inr 0 \<and>
   [10, 20, 30] \<noteq> ([] :: u8 list) \<and> length [10, 20, 30 :: u8] < 5 \<and>
   (\<exists>s' a. ADC_PushTemp_all [10, 20, 30] (ADC_InitModule adc_startup) = Inr s' \<and>
      ADC_GetAvgTempC s' = Inr a \<and> unat a = 20) \<and>
   5 \<le> length [10, 20, 30, 40, 50, 60, 71 :: u8] \<and>
   (\<exists>s' a. ADC_PushTemp_all [10, 20, 30, 40, 50, 60, 71] (ADC_InitModule adc_startup) = Inr s' \<and>
      ADC_GetAvgTempC s' = Inr a \<and> unat a = 50)"
  using ADC_GetAvgTempC_rolling_mean
    [of adc_startup "[10, 20, 30]" "[10, 20, 30, 40, 50, 60, 71]"]
  by (simp add: adc_wf_def adc_startup_def)

text \<open>C10. After initialisation and after every push the valid count is at most 5, the
  write index is below 5, and while the count is below 5 the index equals the count and the
  first slots, as many as the count, hold exactly the values pushed so far.\<close>

theorem ADC_PushTemp_ring_invariant:
  assumes "adc_wf s"
  shows "\<exists>s'. ADC_PushTemp_all vs (ADC_InitModule s) = Inr s' \<and>
           unat (s_tempCount s') \<le> 5 \<and> unat (s_tempIndex s') < 5 \<and>
           (unat (s_tempCount s') < 5 \<longrightarrow>
              s_tempIndex s' = s_tempCount s' \<and>
              unat (s_tempCount s') = length vs \<and>
              take (unat (s_tempCount s')) (s_tempBuf s') = vs)"
proof -
  from ADC_PushTemp_all_init [OF assms, of vs] obtain s' where
    s': "ADC_PushTemp_all vs (ADC_InitModule s) = Inr s'" "ring_holds s' vs"
    by blast
  from s'(2) have cnt: "unat (s_tempCount s') = min 5 (length vs)"
    and idx: "unat (s_tempIndex s') = length vs mod 5"
    by (simp_all add: ring_holds_def)
  have "unat (s_tempCount s') \<le> 5" by (simp add: cnt)
  moreover have "unat (s_tempIndex s') < 5" by (simp add: idx)
  moreover have "s_tempIndex s' = s_tempCount s' \<and> unat (s_tempCount s') = length vs \<and>
      take (unat (s_tempCount s')) (s_tempBuf s') = vs"
    if "unat (s_tempCount s') < 5"
  proof -
    from that cnt have short: "length vs < 5" by simp
    with cnt idx have "unat (s_tempIndex s') = unat (s_tempCount s')" by simp
    then have "s_tempIndex s' = s_tempCount s'" by (simp add: word_unat_eq_iff)
    with ring_sum_partial(1,3) [OF s'(2) short] show ?thesis by simp
  qed
  ultimately show ?thesis using s'(1) by blast
qed

theorem ADC_PushTemp_ring_invariant_witness:
  "adc_wf adc_startup \<and>
   (\<exists>s'. ADC_PushTemp_all [7, 8, 9] (ADC_InitModule adc_startup) = Inr s' \<and>
      unat (s_tempCount s') \<le> 5 \<and> unat (s_tempIndex s') < 5 \<and>
      unat (s_tempCount s') < 5 \<and> s_tempIndex s' = s_tempCount s' \<and>
      unat (s_tempCount s') = 3 \<and> take 3 (s_tempBuf s') = [7, 8, 9])"
proof -
  have wf: "adc_wf adc_startup"
    by (simp add: adc_wf_def adc_startup_def)
  from ADC_PushTemp_ring_invariant [OF wf, of "[7, 8, 9]"] obtain s' where
    s': "ADC_PushTemp_all [7, 8, 9] (ADC_InitModule adc_startup) = Inr s'"
      "unat (s_tempCount s') \<le> 5" "unat (s_tempIndex s') < 5"
      "unat (s_tempCount s') < 5 \<longrightarrow> s_tempIndex s' = s_tempCount s' \<and>
         unat (s_tempCount s') = length [7, 8, 9 :: u8] \<and>
         take (unat (s_tempCount s')) (s_tempBuf s') = [7, 8, 9]"
    by blast
  have "ADC_PushTemp_all [7, 8, 9] (ADC_InitModule adc_startup) =
      Inr (adc_startup\<lparr>s_tempBuf := [7, 8, 9, 0, 0], s_tempCount := 3, s_tempIndex := 3\<rparr>)"
    by (simp add: ADC_PushTemp_def ADC_InitModule_def adc_startup_def ADC_AVG_WINDOW_def
        ADC16_DEFAULT_CHANNEL_def)
  with s'(1) have "unat (s_tempCount s') < 5" by auto
  with s' wf show ?thesis by (auto simp: numeral_3_eq_3)
qed

section \<open>The converter and the periodic service\<close>

lemma ADC_ConvertOnce_Polling_wait_returns:
  "COCO h (n_started h) (polls h + d) \<Longrightarrow>
   \<exists>m. ADC_ConvertOnce_Polling_wait h = Some (h\<lparr>polls := m\<rparr>)"
proof (induction d arbitrary: h)
  case 0
  then have "ADC_ConvertOnce_Polling_wait h = Some (h\<lparr>polls := Suc (polls h)\<rparr>)"
    by (subst ADC_ConvertOnce_Polling_wait.simps) (simp add: ADC16_GetChannelStatusFlags_def)
  then show ?case by blast
next
  case (Suc d)
  show ?case
  proof (cases "COCO h (n_started h) (polls h)")
    case True
    then have "ADC_ConvertOnce_Polling_wait h = Some (h\<lparr>polls := Suc (polls h)\<rparr>)"
      by (subst ADC_ConvertOnce_Polling_wait.simps) (simp add: ADC16_GetChannelStatusFlags_def)
    then show ?thesis by blast
  next
    case False
    let ?h = "h\<lparr>polls := Suc (polls h)\<rparr>"
    from False have step: "ADC_ConvertOnce_Polling_wait h = ADC_ConvertOnce_Polling_wait ?h"
      by (subst ADC_ConvertOnce_Polling_wait.simps) (simp add: ADC16_GetChannelStatusFlags_def)
    from Suc.prems have "COCO ?h (n_started ?h) (polls ?h + d)" by simp
    from Suc.IH [OF this] obtain m where "ADC_ConvertOnce_Polling_wait ?h = Some (?h\<lparr>polls := m\<rparr>)"
      by blast
    with step have "ADC_ConvertOnce_Polling_wait h = Some (h\<lparr>polls := m\<rparr>)" by simp
    then show ?thesis by blast
  qed
qed

lemma ADC_ConvertOnce_Polling_returns:
  assumes "adc16_responsive h"
  shows "\<exists>m. ADC_ConvertOnce_Polling s h =
           Inr (R h (Suc (n_started h)),
                h\<lparr>n_started := Suc (n_started h), polls := m, channel := s_activeChannel s\<rparr>)"
proof -
  let ?h1 = "ADC16_SetChannelConfig (s_activeChannel s) h"
  from assms obtain n where "COCO h (Suc (n_started h)) n"
    unfolding adc16_responsive_def by blast
  then have "COCO ?h1 (n_started ?h1) (polls ?h1 + n)"
    by (simp add: ADC16_SetChannelConfig_def)
  from ADC_ConvertOnce_Polling_wait_returns [OF this] obtain m where
    "ADC_ConvertOnce_Polling_wait ?h1 = Some (?h1\<lparr>polls := m\<rparr>)"
    by blast
  then have "ADC_ConvertOnce_Polling s h =
      Inr (R h (Suc (n_started h)),
           h\<lparr>n_started := Suc (n_started h), polls := m, channel := s_activeChannel s\<rparr>)"
    by (simp add: ADC_ConvertOnce_Polling_def ADC16_SetChannelConfig_def
        ADC16_GetChannelConversionValue_def)
  then show ?thesis by blast
qed

lemma ADC_Service_idle:
  "\<not> ADC_SAMPLE_PERIOD_MS \<le> t - s_lastKickMs s \<Longrightarrow> ADC_Service t (s, h) = Inr (s, h)"
  by (simp add: ADC_Service_def)

lemma ADC_Service_due:
  assumes due: "ADC_SAMPLE_PERIOD_MS \<le> t - s_lastKickMs s"
    and inv: "adc_inv s" and resp: "adc16_responsive h"
  shows "\<exists>s' h'. ADC_Service t (s, h) = Inr (s', h') \<and> adc_inv s' \<and> adc16_responsive h' \<and>
           s_lastKickMs s' = t \<and> n_started h' = Suc (n_started h) \<and>
           s_lastTempC s' = ADC_CountsToTempC (R h (Suc (n_started h)))"
proof -
  let ?s1 = "s\<lparr>s_lastKickMs := t\<rparr>"
  from ADC_ConvertOnce_Polling_returns [OF resp, of ?s1] obtain m where
    conv: "ADC_ConvertOnce_Polling ?s1 h =
      Inr (R h (Suc (n_started h)),
           h\<lparr>n_started := Suc (n_started h), polls := m, channel := s_activeChannel s\<rparr>)"
    by auto
  let ?h' = "h\<lparr>n_started := Suc (n_started h), polls := m, channel := s_activeChannel s\<rparr>"
  let ?s2 = "?s1\<lparr>s_lastTempC := ADC_CountsToTempC (R h (Suc (n_started h)))\<rparr>"
  from inv have "adc_inv ?s2" by (simp add: adc_inv_def adc_wf_def)
  from ADC_PushTemp_adc_inv [OF this, of "s_lastTempC ?s2"] obtain s' where
    s': "ADC_PushTemp (s_lastTempC ?s2) ?s2 = Inr s'" "adc_inv s'"
      "s_lastKickMs s' = s_lastKickMs ?s2" "s_lastTempC s' = s_lastTempC ?s2"
    by blast
  from due conv s'(1) have "ADC_Service t (s, h) = Inr (s', ?h')"
    by (simp add: ADC_Service_def)
  moreover from resp have "adc16_responsive ?h'"
    by (simp add: adc16_responsive_def)
  ultimately show ?thesis using s' by simp
qed

lemma ADC_Service_returns:
  assumes inv: "adc_inv s" and resp: "adc16_responsive h"
  shows "\<exists>s' h'. ADC_Service t (s, h) = Inr (s', h') \<and> adc_inv s' \<and> adc16_responsive h' \<and>
           n_started h' = n_started h + (if ADC_SAMPLE_PERIOD_MS \<le> t - s_lastKickMs s then 1 else 0) \<and>
           (if ADC_SAMPLE_PERIOD_MS \<le> t - s_lastKickMs s then s_lastKickMs s' = t
            else s' = s \<and> h' = h)"
proof (cases "ADC_SAMPLE_PERIOD_MS \<le> t - s_lastKickMs s")
  case True
  from ADC_Service_due [OF True inv resp] True show ?thesis by auto
next
  case False
  with ADC_Service_idle [OF False, of h] inv resp show ?thesis by simp
qed

lemma ADC_Service_due_uint:
  "(ADC_SAMPLE_PERIOD_MS \<le> t - l) = (20 \<le> (uint t - uint l) mod 2 ^ 32)"
  by (simp add: ADC_SAMPLE_PERIOD_MS_def word_le_def uint_word_ariths)

lemma adc_inv_startup: "adc_inv (adc_startup\<lparr>s_lastKickMs := l\<rparr>)"
  by (simp add: adc_inv_def adc_wf_def adc_startup_def)

lemma adc16_responsive_example: "adc16_responsive (adc16_example v)"
  unfolding adc16_responsive_def adc16_example_def by auto

text \<open>C7. The elapsed time is the 32-bit difference of the tick and the last kick time, so
  it is their difference modulo \<open>2 ^ 32\<close> also when the tick counter has rolled over in
  between; a call starts one conversion exactly when that difference is at least 20, and
  none otherwise.\<close>

theorem ADC_Service_wraparound:
  assumes "adc_inv s" and "adc16_responsive h"
  shows "\<exists>s' h'. ADC_Service tick_ms (s, h) = Inr (s', h') \<and>
           uint (tick_ms - s_lastKickMs s) = (uint tick_ms - uint (s_lastKickMs s)) mod 2 ^ 32 \<and>
           (n_started h' = n_started h + 1) =
             (20 \<le> (uint tick_ms - uint (s_lastKickMs s)) mod 2 ^ 32) \<and>
           (n_started h' = n_started h) =
             ((uint tick_ms - uint (s_lastKickMs s)) mod 2 ^ 32 < 20)"
proof -
  from ADC_Service_returns [OF assms, of tick_ms] obtain s' h' where
    r: "ADC_Service tick_ms (s, h) = Inr (s', h')"
      "n_started h' =
         n_started h + (if ADC_SAMPLE_PERIOD_MS \<le> tick_ms - s_lastKickMs s then 1 else 0)"
    by blast
  have "uint (tick_ms - s_lastKickMs s) = (uint tick_ms - uint (s_lastKickMs s)) mod 2 ^ 32"
    by (simp add: uint_word_ariths)
  moreover from r(2)
  have "(n_started h' = n_started h + 1) = (20 \<le> (uint tick_ms - uint (s_lastKickMs s)) mod 2 ^ 32)"
    by (simp add: ADC_Service_due_uint split: if_splits)
  moreover from r(2)
  have "(n_started h' = n_started h) = ((uint tick_ms - uint (s_lastKickMs s)) mod 2 ^ 32 < 20)"
    by (simp add: ADC_Service_due_uint not_le split: if_splits)
  ultimately show ?thesis using r(1) by blast
qed

theorem ADC_Service_wraparound_witness:
  "adc_inv (adc_startup\<lparr>s_lastKickMs := 4294967280\<rparr>) \<and>
   adc16_responsive (adc16_example 2048) \<and>
   (uint (4 :: u32) - uint (4294967280 :: u32)) mod 2 ^ 32 = 20 \<and>
   (\<exists>s' h'. ADC_Service 4 (adc_startup\<lparr>s_lastKickMs := 4294967280\<rparr>, adc16_example 2048)
              = Inr (s', h') \<and>
            n_started h' = n_started (adc16_example 2048) + 1)"
proof -
  have inv: "adc_inv (adc_startup\<lparr>s_lastKickMs := 4294967280\<rparr>)"
    by (rule adc_inv_startup)
  have resp: "adc16_responsive (adc16_example 2048)"
    by (rule adc16_responsive_example)
  have elapsed: "(uint (4 :: u32) - uint (4294967280 :: u32)) mod 2 ^ 32 = 20"
    by simp
  from ADC_Service_wraparound [OF inv resp, of 4] elapsed inv resp
  show ?thesis by auto
qed

text \<open>C9. A call with an elapsed time below the sampling period returns the module state and
  the converter exactly as they were: the last kick time, the last value, the buffer, the
  valid count, the write index and the ASCII buffer are unchanged and no conversion is
  started.\<close>

theorem ADC_Service_noop:
  assumes "unat (tick_ms - s_lastKickMs s) < 20"
  shows "ADC_Service tick_ms (s, h) = Inr (s, h)"
proof -
  from assms have "\<not> ADC_SAMPLE_PERIOD_MS \<le> tick_ms - s_lastKickMs s"
    by (simp add: ADC_SAMPLE_PERIOD_MS_def word_le_nat_alt)
  then show ?thesis by (rule ADC_Service_idle)
qed

theorem ADC_Service_noop_witness:
  "unat ((3 :: u32) - s_lastKickMs (adc_startup\<lparr>s_lastKickMs := 4294967280\<rparr>)) < 20 \<and>
   ADC_Service 3 (adc_startup\<lparr>s_lastKickMs := 4294967280\<rparr>, adc16_example 2048) =
     Inr (adc_startup\<lparr>s_lastKickMs := 4294967280\<rparr>, adc16_example 2048)"
proof -
  have elapsed: "unat ((3 :: u32) - s_lastKickMs (adc_startup\<lparr>s_lastKickMs := 4294967280\<rparr>)) < 20"
    by simp
  from ADC_Service_noop [OF elapsed] elapsed show ?thesis by blast
qed

lemma ADC_Service_calls_returns:
  "adc_inv s \<Longrightarrow> adc16_responsive h \<Longrightarrow>
   \<exists>s' h'. ADC_Service_calls ticks (s, h) = Inr (s', h') \<and> adc_inv s' \<and>
          adc16_responsive h' \<and> n_started h \<le> n_started h'"
proof (induction ticks arbitrary: s h)
  case Nil
  then show ?case by simp
next
  case (Cons t ticks)
  from ADC_Service_returns [OF Cons.prems, of t] obtain s1 h1 where
    s1: "ADC_Service t (s, h) = Inr (s1, h1)" "adc_inv s1" "adc16_responsive h1"
      "n_started h \<le> n_started h1"
    by auto
  from Cons.IH [OF s1(2,3)] obtain s' h' where
    "ADC_Service_calls ticks (s1, h1) = Inr (s', h')" "adc_inv s'" "adc16_responsive h'"
    "n_started h1 \<le> n_started h'"
    by blast
  with s1 show ?case by auto
qed

lemma ADC_Service_calls_idle:
  "\<forall>t \<in> set ticks. \<not> ADC_SAMPLE_PERIOD_MS \<le> t - s_lastKickMs s \<Longrightarrow>
   ADC_Service_calls ticks (s, h) = Inr (s, h)"
  by (induction ticks) (simp_all add: ADC_Service_idle)

lemma elapsed_offsets:
  assumes "k \<le> d"
  shows "unat ((t0 + of_nat d) - (t0 + of_nat k) :: u32) = (d - k) mod 2 ^ 32"
proof -
  from assms have "(t0 + of_nat d) - (t0 + of_nat k) = (of_nat (d - k) :: u32)"
    by (simp add: of_nat_diff)
  then show ?thesis
    by (simp add: unat_of_nat)
qed

lemma due_unat: "(ADC_SAMPLE_PERIOD_MS \<le> x) = (20 \<le> unat x)"
  by (simp add: ADC_SAMPLE_PERIOD_MS_def word_le_nat_alt)

lemma ADC_Service_calls_after_kick:
  "adc_inv s \<Longrightarrow> adc16_responsive h \<Longrightarrow> s_lastKickMs s = t0 + of_nat k \<Longrightarrow>
   sorted ds \<Longrightarrow> \<forall>d \<in> set ds. k \<le> d \<Longrightarrow>
   \<exists>s' h'. ADC_Service_calls (map (\<lambda>d. t0 + of_nat d) ds) (s, h) = Inr (s', h') \<and>
          n_started h \<le> n_started h' \<and>
          n_started h' \<le> n_started h + (last (k # ds) - k) div 20"
proof (induction ds arbitrary: s h k)
  case Nil
  then show ?case by simp
next
  case (Cons d ds)
  from Cons.prems have kd: "k \<le> d" by simp
  from Cons.prems have sorted: "sorted ds" and ge: "\<forall>e \<in> set ds. d \<le> e" by simp_all
  have elapsed: "unat ((t0 + of_nat d) - s_lastKickMs s) = (d - k) mod 2 ^ 32"
    using elapsed_offsets [OF kd] Cons.prems(3) by simp
  have last_ge: "d \<le> last (d # ds)"
    using ge by (cases "ds = []") simp_all
  show ?case
  proof (cases "20 \<le> (d - k) mod 2 ^ 32")
    case True
    then have "ADC_SAMPLE_PERIOD_MS \<le> (t0 + of_nat d) - s_lastKickMs s"
      by (simp add: due_unat elapsed)
    from ADC_Service_due [OF this Cons.prems(1,2)] obtain s1 h1 where
      s1: "ADC_Service (t0 + of_nat d) (s, h) = Inr (s1, h1)" "adc_inv s1"
        "adc16_responsive h1" "s_lastKickMs s1 = t0 + of_nat d"
        "n_started h1 = Suc (n_started h)"
      by blast
    from Cons.IH [OF s1(2,3,4) sorted ge] obtain s' h' where
      rest: "ADC_Service_calls (map (\<lambda>d. t0 + of_nat d) ds) (s1, h1) = Inr (s', h')"
        "n_started h1 \<le> n_started h'"
        "n_started h' \<le> n_started h1 + (last (d # ds) - d) div 20"
      by blast
    have "(d - k) mod 2 ^ 32 \<le> d - k" by (rule mod_less_eq_dividend)
    with True have "20 \<le> d - k" by (rule order_trans)
    with kd last_ge
    have "20 + (last (d # ds) - d) \<le> last (d # ds) - k" by simp
    then have "(20 + (last (d # ds) - d)) div 20 \<le> (last (d # ds) - k) div 20"
      by (rule div_le_mono)
    then have "1 + (last (d # ds) - d) div 20 \<le> (last (d # ds) - k) div 20"
      by simp
    with rest s1 show ?thesis by simp
  next
    case False
    then have "\<not> ADC_SAMPLE_PERIOD_MS \<le> (t0 + of_nat d) - s_lastKickMs s"
      by (simp add: due_unat elapsed)
    then have idle: "ADC_Service (t0 + of_nat d) (s, h) = Inr (s, h)"
      by (rule ADC_Service_idle)
    from Cons.prems(5) have "\<forall>e \<in> set ds. k \<le> e" by simp
    from Cons.IH [OF Cons.prems(1,2,3) sorted this] obtain s' h' where
      rest: "ADC_Service_calls (map (\<lambda>d. t0 + of_nat d) ds) (s, h) = Inr (s', h')"
        "n_started h \<le> n_started h'"
        "n_started h' \<le> n_started h + (last (k # ds) - k) div 20"
      by blast
    have "(last (k # ds) - k) div 20 \<le> (last (k # d # ds) - k) div 20"
      by (cases "ds = []") simp_all
    with rest idle show ?thesis by simp
  qed
qed

lemma ADC_Service_calls_rate:
  "adc_inv s \<Longrightarrow> adc16_responsive h \<Longrightarrow> sorted ds \<Longrightarrow> ds \<noteq> [] \<Longrightarrow>
   \<exists>s' h'. ADC_Service_calls (map (\<lambda>d. t0 + of_nat d) ds) (s, h) = Inr (s', h') \<and>
          n_started h \<le> n_started h' \<and>
          n_started h' \<le> n_started h + 1 + (last ds - hd ds) div 20"
proof (induction ds arbitrary: s h)
  case Nil
  then show ?case by simp
next
  case (Cons d ds)
  from Cons.prems have sorted: "sorted ds" and ge: "\<forall>e \<in> set ds. d \<le> e" by simp_all
  show ?case
  proof (cases "ADC_SAMPLE_PERIOD_MS \<le> (t0 + of_nat d) - s_lastKickMs s")
    case True
    from ADC_Service_due [OF True Cons.prems(1,2)] obtain s1 h1 where
      s1: "ADC_Service (t0 + of_nat d) (s, h) = Inr (s1, h1)" "adc_inv s1"
        "adc16_responsive h1" "s_lastKickMs s1 = t0 + of_nat d"
        "n_started h1 = Suc (n_started h)"
      by blast
    from ADC_Service_calls_after_kick [OF s1(2,3,4) sorted ge] obtain s' h' where
      "ADC_Service_calls (map (\<lambda>d. t0 + of_nat d) ds) (s1, h1) = Inr (s', h')"
      "n_started h1 \<le> n_started h'"
      "n_started h' \<le> n_started h1 + (last (d # ds) - d) div 20"
      by blast
    with s1 show ?thesis by simp
  next
    case False
    then have idle: "ADC_Service (t0 + of_nat d) (s, h) = Inr (s, h)"
      by (rule ADC_Service_idle)
    show ?thesis
    proof (cases "ds = []")
      case True
      with idle show ?thesis by simp
    next
      case nonempty: False
      from Cons.IH [OF Cons.prems(1,2) sorted nonempty] obtain s' h' where
        rest: "ADC_Service_calls (map (\<lambda>d. t0 + of_nat d) ds) (s, h) = Inr (s', h')"
          "n_started h \<le> n_started h'"
          "n_started h' \<le> n_started h + 1 + (last ds - hd ds) div 20"
        by blast
      from nonempty ge have "d \<le> hd ds" by simp
      then have "(last ds - hd ds) div 20 \<le> (last ds - d) div 20"
        by (intro div_le_mono diff_le_mono2)
      with rest idle nonempty show ?thesis by simp
    qed
  qed
qed

lemma ADC_Service_calls_none_due:
  "adc_inv s \<Longrightarrow> adc16_responsive h \<Longrightarrow>
   ADC_Service_calls ticks (s, h) = Inr (s', h') \<Longrightarrow> n_started h' = n_started h \<Longrightarrow>
   \<forall>t \<in> set ticks. \<not> ADC_SAMPLE_PERIOD_MS \<le> t - s_lastKickMs s"
proof (induction ticks)
  case Nil
  then show ?case by simp
next
  case (Cons t ticks)
  have idle: "\<not> ADC_SAMPLE_PERIOD_MS \<le> t - s_lastKickMs s"
  proof
    assume due: "ADC_SAMPLE_PERIOD_MS \<le> t - s_lastKickMs s"
    from ADC_Service_due [OF due Cons.prems(1,2)] obtain s1 h1 where
      s1: "ADC_Service t (s, h) = Inr (s1, h1)" "adc_inv s1" "adc16_responsive h1"
        "n_started h1 = Suc (n_started h)"
      by blast
    from ADC_Service_calls_returns [OF s1(2,3), of ticks] obtain s2 h2 where
      "ADC_Service_calls ticks (s1, h1) = Inr (s2, h2)" "n_started h1 \<le> n_started h2"
      by blast
    with s1 Cons.prems(3,4) show False by simp
  qed
  then have "ADC_Service t (s, h) = Inr (s, h)" by (rule ADC_Service_idle)
  with Cons.prems(3) have "ADC_Service_calls ticks (s, h) = Inr (s', h')" by simp
  from Cons.IH [OF Cons.prems(1,2) this Cons.prems(4)] idle show ?case by simp
qed

lemma adc_inv_ADC_InitModule: "adc_inv s \<Longrightarrow> adc_inv (ADC_InitModule s)"
  by (simp add: adc_inv_def adc_wf_def ADC_InitModule_def)

lemma some_tick_due:
  assumes "t1 \<noteq> (0 :: u32)"
  shows "\<exists>i < 20. 20 \<le> unat (t1 + of_nat i)"
proof (cases "20 \<le> unat t1")
  case True
  then have "(0 :: nat) < 20 \<and> 20 \<le> unat (t1 + of_nat 0)" by simp
  then show ?thesis by (rule exI)
next
  case False
  let ?i = "20 - unat t1"
  from assms have "0 < unat t1" by (simp add: unat_gt_0)
  with False have i: "?i < 20" by simp
  have "t1 + of_nat ?i = of_nat (unat t1) + of_nat ?i" by simp
  also have "\<dots> = of_nat (unat t1 + ?i)" by (simp only: of_nat_add)
  also from False have "\<dots> = 20" by simp
  finally have "unat (t1 + of_nat ?i) = 20" by simp
  with i show ?thesis by (intro exI [of _ ?i]) simp
qed

text \<open>C2. For calls whose tick arguments do not decrease (the tick is monotonic: the ticks
  are \<open>t0 + d\<close> for non-decreasing offsets \<open>d\<close>, and the 32-bit counter may roll over), the
  calls return and start at most one conversion plus one for every full sampling period
  between the first and the last call; hence any 20 calls on consecutive ticks start at most
  one. From the initialised module, 20 calls on consecutive ticks starting at \<open>t1\<close> start
  exactly one conversion when \<open>t1\<close> is not 0, and none when \<open>t1 = 0\<close> (ticks 0 to 19).\<close>

theorem ADC_Service_one_per_period:
  assumes "adc_inv s" and "adc16_responsive h"
  shows "(sorted ds \<and> ds \<noteq> [] \<longrightarrow>
           (\<exists>c. ADC_Service_conversions (map (\<lambda>d. t0 + of_nat d) ds) (s, h) = Some c \<and>
                c \<le> 1 + (last ds - hd ds) div 20)) \<and>
         ADC_Service_conversions (map (\<lambda>i. t1 + of_nat i) [0..<20]) (ADC_InitModule s, h) =
           Some (if t1 = 0 then 0 else 1)"
proof (intro conjI impI)
  assume "sorted ds \<and> ds \<noteq> []"
  then have ds: "sorted ds" "ds \<noteq> []" by simp_all
  from ADC_Service_calls_rate [OF assms ds, of t0] obtain s' h' where
    "ADC_Service_calls (map (\<lambda>d. t0 + of_nat d) ds) (s, h) = Inr (s', h')"
    "n_started h \<le> n_started h'"
    "n_started h' \<le> n_started h + 1 + (last ds - hd ds) div 20"
    by blast
  then show "\<exists>c. ADC_Service_conversions (map (\<lambda>d. t0 + of_nat d) ds) (s, h) = Some c \<and>
                c \<le> 1 + (last ds - hd ds) div 20"
    by (simp add: ADC_Service_conversions_def)
next
  let ?s0 = "ADC_InitModule s"
  let ?ticks = "map (\<lambda>i. t1 + of_nat i) [0..<20]"
  from assms(1) have inv0: "adc_inv ?s0" by (rule adc_inv_ADC_InitModule)
  have kick0: "s_lastKickMs ?s0 = 0" by (simp add: ADC_InitModule_def)
  show "ADC_Service_conversions ?ticks (?s0, h) = Some (if t1 = 0 then 0 else 1)"
  proof (cases "t1 = 0")
    case True
    have "\<forall>t \<in> set ?ticks. \<not> ADC_SAMPLE_PERIOD_MS \<le> t - s_lastKickMs ?s0"
    proof
      fix t
      assume "t \<in> set ?ticks"
      then obtain i where i: "i < 20" "t = t1 + of_nat i" by auto
      with True have "unat t = i" by (simp add: unat_of_nat)
      with i show "\<not> ADC_SAMPLE_PERIOD_MS \<le> t - s_lastKickMs ?s0"
        by (simp add: due_unat kick0)
    qed
    then have "ADC_Service_calls ?ticks (?s0, h) = Inr (?s0, h)"
      by (rule ADC_Service_calls_idle)
    with True show ?thesis by (simp add: ADC_Service_conversions_def)
  next
    case False
    have "sorted [0..<20]" "[0..<20] \<noteq> []"
      by simp_all
    from ADC_Service_calls_rate [OF inv0 assms(2) this, of t1] obtain s' h' where
      r: "ADC_Service_calls ?ticks (?s0, h) = Inr (s', h')"
        "n_started h \<le> n_started h'"
        "n_started h' \<le> n_started h + 1 + (last [0..<20] - hd [0..<20]) div 20"
      by blast
    have "last [0..<20] = (19 :: nat)" "hd [0..<20] = (0 :: nat)"
      by (simp_all add: hd_upt)
    with r(3) have upper: "n_started h' \<le> n_started h + 1" by simp
    have "n_started h' \<noteq> n_started h"
    proof
      assume "n_started h' = n_started h"
      from ADC_Service_calls_none_due [OF inv0 assms(2) r(1) this]
      have none: "\<forall>t \<in> set ?ticks. \<not> 20 \<le> unat t"
        by (simp add: due_unat kick0)
      from some_tick_due [OF False] obtain i where "i < 20" "20 \<le> unat (t1 + of_nat i)"
        by blast
      with none show False by auto
    qed
    with r(2) upper have "n_started h' - n_started h = 1" by simp
    with r(1) False show ?thesis by (simp add: ADC_Service_conversions_def)
  qed
qed

lemma adc_inv_adc_startup: "adc_inv adc_startup"
  by (simp add: adc_inv_def adc_wf_def adc_startup_def)

theorem ADC_Service_one_per_period_witness:
  "adc_inv adc_startup \<and> adc16_responsive (adc16_example 2048) \<and>
   sorted [0, 5, 25, 30, 50 :: nat] \<and> [0, 5, 25, 30, 50 :: nat] \<noteq> [] \<and>
   (\<exists>c. ADC_Service_conversions (map (\<lambda>d. 4294967290 + of_nat d) [0, 5, 25, 30, 50])
           (adc_startup, adc16_example 2048) = Some c \<and> c \<le> 3) \<and>
   ADC_Service_conversions (map (\<lambda>i. 1 + of_nat i) [0..<20])
     (ADC_InitModule adc_startup, adc16_example 2048) = Some 1"
  using ADC_Service_one_per_period [OF adc_inv_adc_startup adc16_responsive_example,
      of "[0, 5, 25, 30, 50]" 4294967290 2048 1]
    adc_inv_adc_startup adc16_responsive_example [of 2048]
  by (auto simp: numeral_3_eq_3)

text \<open>C2, counterexample. With the ticks 0 to 19 the 20 calls from the initialised module
  start no conversion: the elapsed time, measured from the last kick time 0, stays below 20.\<close>

theorem ADC_Service_ticks_from_zero:
  "ADC_Service_conversions [0, 1, 2, 3, 4, 5, 6, 7, 8, 9, 10, 11, 12, 13, 14, 15, 16, 17, 18, 19]
     (ADC_InitModule adc_startup, adc16_example 2048) = Some 0"
  by (simp add: ADC_Service_conversions_def ADC_Service_def ADC_InitModule_def
      ADC_SAMPLE_PERIOD_MS_def adc_startup_def word_le_nat_alt)

section \<open>Formatting\<close>

lemma list4_cases:
  assumes "length xs = 4"
  obtains a b c d where "xs = [a, b, c, d]"
proof -
  from assms obtain a b c d where "xs = [a, b, c, d]"
    by (auto simp: length_Suc_conv numeral_eq_Suc)
  then show ?thesis by (rule that)
qed

lemma unat_ascii_digit:
  assumes "unat (x :: u8) < 200"
  shows "unat (ucast (ASCII_ZERO + ucast x :: u32) :: u8) = 48 + unat x"
proof -
  have "unat (48 + ucast x :: u32) = 48 + unat x"
    using unat_u8_bound [of x] by (simp add: unat_word_ariths unat_ucast_u8_u32)
  with assms show ?thesis
    by (simp add: ASCII_ZERO_def unat_ucast_u32_u8)
qed

lemma unat_tens: "unat (ucast ((ucast (v :: u8) :: u32) div 10) :: u8) = unat v div 10"
proof -
  have "unat ((ucast v :: u32) div 10) = unat v div 10"
    by (simp add: unat_div unat_ucast_u8_u32)
  moreover have "unat v div 10 < 256"
    using unat_u8_bound [of v] by simp
  ultimately show ?thesis by (simp add: unat_ucast_u32_u8)
qed

lemma unat_units: "unat (ucast ((ucast (v :: u8) :: u32) mod 10) :: u8) = unat v mod 10"
proof -
  have "unat ((ucast v :: u32) mod 10) = unat v mod 10"
    by (simp add: unat_mod unat_ucast_u8_u32)
  moreover have "unat v mod 10 < 256"
    by (rule less_trans [of _ 10]) simp_all
  ultimately show ?thesis by (simp add: unat_ucast_u32_u8)
qed

lemma ADC_FormatTempToAscii_bytes:
  assumes "adc_wf s"
  shows "map unat (gAdcTempAscii (ADC_FormatTempToAscii v s)) =
           [48 + unat v div 10, 48 + unat v mod 10, 46, 48]"
proof -
  from assms have "length (gAdcTempAscii s) = 4" by (simp add: adc_wf_def)
  then obtain a b c d where abcd: "gAdcTempAscii s = [a, b, c, d]" by (rule list4_cases)
  have tens: "unat v div 10 < 200" using unat_u8_bound [of v] by simp
  have units: "unat v mod 10 < 200" by (rule less_trans [of _ 10]) simp_all
  have "gAdcTempAscii (ADC_FormatTempToAscii v s) =
      [ucast (ASCII_ZERO + ucast (ucast ((ucast v :: u32) div 10) :: u8)),
       ucast (ASCII_ZERO + ucast (ucast ((ucast v :: u32) mod 10) :: u8)),
       ucast ASCII_DOT_CHAR, ucast (ASCII_ZERO + 0)]"
    by (simp add: ADC_FormatTempToAscii_def Let_def abcd)
  then show ?thesis
    using tens units
    by (simp add: unat_ascii_digit unat_tens unat_units) (simp add: ASCII_ZERO_def ASCII_DOT_CHAR_def)
qed

text \<open>C8. For every value from 0 to 99 the four bytes written are the ASCII digit of the
  tens (48 is the character 0), the ASCII digit of the units, the dot (46) and the constant
  character 0; the values 23, 0 and 40 give the strings 23.0, 00.0 and 40.0.\<close>

theorem ADC_FormatTempToAscii_digits:
  assumes "adc_wf s"
  shows "(unat v \<le> 99 \<longrightarrow>
            map unat (gAdcTempAscii (ADC_FormatTempToAscii v s)) =
              [48 + unat v div 10, 48 + unat v mod 10, 46, 48] \<and>
            unat v div 10 < 10 \<and> unat v mod 10 < 10) \<and>
         gAdcTempAscii (ADC_FormatTempToAscii 23 s) = map of_char ''23.0'' \<and>
         gAdcTempAscii (ADC_FormatTempToAscii 0 s) = map of_char ''00.0'' \<and>
         gAdcTempAscii (ADC_FormatTempToAscii 40 s) = map of_char ''40.0''"
proof -
  from assms have "length (gAdcTempAscii s) = 4" by (simp add: adc_wf_def)
  then obtain a b c d where abcd: "gAdcTempAscii s = [a, b, c, d]" by (rule list4_cases)
  have "gAdcTempAscii (ADC_FormatTempToAscii 23 s) = map of_char ''23.0''"
    "gAdcTempAscii (ADC_FormatTempToAscii 0 s) = map of_char ''00.0''"
    "gAdcTempAscii (ADC_FormatTempToAscii 40 s) = map of_char ''40.0''"
    by (simp_all add: ADC_FormatTempToAscii_def abcd ASCII_ZERO_def ASCII_DOT_CHAR_def)
  moreover have "unat v div 10 < 10" if "unat v \<le> 99"
    using that by simp
  moreover have "unat v mod 10 < 10"
    by simp
  ultimately show ?thesis
    using ADC_FormatTempToAscii_bytes [OF assms, of v] by simp
qed

theorem ADC_FormatTempToAscii_digits_witness:
  "adc_wf adc_startup \<and> unat (37 :: u8) \<le> 99 \<and>
   map unat (gAdcTempAscii (ADC_FormatTempToAscii 37 adc_startup)) = [51, 55, 46, 48] \<and>
   gAdcTempAscii (ADC_FormatTempToAscii 23 adc_startup) = map of_char ''23.0'' \<and>
   gAdcTempAscii (ADC_FormatTempToAscii 0 adc_startup) = map of_char ''00.0'' \<and>
   gAdcTempAscii (ADC_FormatTempToAscii 40 adc_startup) = map of_char ''40.0''"
proof -
  have wf: "adc_wf adc_startup"
    by (simp add: adc_wf_def adc_startup_def)
  from ADC_FormatTempToAscii_digits [OF wf, of 37] wf show ?thesis
    by simp
qed

section \<open>Scheduler\<close>

lemma list3_cases:
  assumes "length xs = 3"
  obtains a b c where "xs = [a, b, c]"
proof -
  from assms obtain a b c where "xs = [a, b, c]"
    by (auto simp: length_Suc_conv numeral_eq_Suc)
  then show ?thesis by (rule that)
qed

lemma PIT_LED_HANDLER_body_tick:
  "PIT_LED_HANDLER_body i tbl = tbl[i := tick_ThdObj (tbl ! i)]"
  by (simp add: PIT_LED_HANDLER_body_def tick_ThdObj_def Let_def)

lemma PIT_LED_HANDLER_loop_unrolled:
  "PIT_LED_HANDLER_loop 0 tbl =
     PIT_LED_HANDLER_body 2 (PIT_LED_HANDLER_body 1 (PIT_LED_HANDLER_body 0 tbl))"
proof -
  have "PIT_LED_HANDLER_loop 3 t = t" for t
    by (subst PIT_LED_HANDLER_loop.simps) (simp add: numeral_2_eq_2 numeral_3_eq_3)
  then have "PIT_LED_HANDLER_loop 2 t = PIT_LED_HANDLER_body 2 t" for t
    by (subst PIT_LED_HANDLER_loop.simps) (simp add: numeral_2_eq_2 numeral_3_eq_3)
  then have "PIT_LED_HANDLER_loop 1 t = PIT_LED_HANDLER_body 2 (PIT_LED_HANDLER_body 1 t)" for t
    by (subst PIT_LED_HANDLER_loop.simps) (simp add: numeral_2_eq_2 numeral_3_eq_3)
  then show ?thesis
    by (subst PIT_LED_HANDLER_loop.simps) (simp add: numeral_2_eq_2 numeral_3_eq_3)
qed

lemma PIT_LED_HANDLER_table:
  assumes "length (ThreadTable s) = 3"
  shows "ThreadTable (PIT_LED_HANDLER s) = map tick_ThdObj (ThreadTable s)"
proof -
  from assms obtain a b c where "ThreadTable s = [a, b, c]" by (rule list3_cases)
  then show ?thesis
    by (simp add: PIT_LED_HANDLER_def PIT_LED_HANDLER_loop_unrolled PIT_LED_HANDLER_body_tick)
qed


lemma tick_ThdObj_elapsed:
  "0 < ThreadRate d \<Longrightarrow> SystemTime (tick_ThdObj d) < ThreadRate (tick_ThdObj d)"
  by (simp add: tick_ThdObj_def)

lemma tick_ThdObj_rate: "ThreadRate (tick_ThdObj d) = ThreadRate d"
  by (simp add: tick_ThdObj_def)



lemma round_ThdObj_rate: "ThreadRate (round_ThdObj d) = ThreadRate d"
  by (simp add: round_ThdObj_def)












text \<open>No step of main changes a period or the size of the table.\<close>

lemma set_ThreadState_rates:
  "map ThreadRate (ThreadTable (set_ThreadState i st s)) = map ThreadRate (ThreadTable s)"
  "length (ThreadTable (set_ThreadState i st s)) = length (ThreadTable s)"
proof -
  show "length (ThreadTable (set_ThreadState i st s)) = length (ThreadTable s)"
    by (simp add: set_ThreadState_def)
  show "map ThreadRate (ThreadTable (set_ThreadState i st s)) = map ThreadRate (ThreadTable s)"
  proof (rule nth_equalityI)
    fix j
    assume "j < length (map ThreadRate (ThreadTable (set_ThreadState i st s)))"
    then have j: "j < length (ThreadTable s)" by (simp add: set_ThreadState_def)
    then show "map ThreadRate (ThreadTable (set_ThreadState i st s)) ! j =
        map ThreadRate (ThreadTable s) ! j"
      by (cases "j = i") (simp_all add: set_ThreadState_def)
  qed (simp add: set_ThreadState_def)
qed

lemma ThreadHandler_call_table: "ThreadTable (ThreadHandler_call i s) = ThreadTable s"
  by (simp add: ThreadHandler_call_def Let_def log_call_def Thd_2ms_def Thd_5ms_def Thd_10ms_def
      split: ThdFn.split)

lemma main_step_rates:
  "map ThreadRate (ThreadTable (snd (main_step c))) = map ThreadRate (ThreadTable (snd c))"
  "length (ThreadTable (snd (main_step c))) = length (ThreadTable (snd c))"
  by (cases c rule: main_step.cases;
      simp add: set_ThreadState_rates ThreadHandler_call_table Thd_idle_def log_call_def)+

lemma main_until_exit_rates:
  "map ThreadRate (ThreadTable (snd (main_until_exit c))) = map ThreadRate (ThreadTable (snd c)) \<and>
   length (ThreadTable (snd (main_until_exit c))) = length (ThreadTable (snd c))"
proof (induction c rule: main_until_exit.induct)
  case (1 c)
  show ?case
  proof (cases "fst (fst c) < 3")
    case True
    then have "main_until_exit c = main_until_exit (main_step c)"
      by (subst main_until_exit.simps) simp
    with "1.IH" [OF True] show ?thesis by (simp add: main_step_rates)
  next
    case False
    then have "main_until_exit c = main_step c"
      by (subst main_until_exit.simps) simp
    then show ?thesis by (simp add: main_step_rates)
  qed
qed

lemma exec_length_rates:
  "length (ThreadTable (snd c)) = 3 \<Longrightarrow>
   length (ThreadTable (snd (exec steps c))) = 3 \<and>
   map ThreadRate (ThreadTable (snd (exec steps c))) = map ThreadRate (ThreadTable (snd c))"
proof (induction steps arbitrary: c)
  case Nil
  then show ?case by simp
next
  case (Cons x steps)
  show ?case
  proof (cases x)
    case Tick
    let ?c = "(fst c, PIT_LED_HANDLER (snd c))"
    from Cons.prems have "length (ThreadTable (snd ?c)) = 3"
      "map ThreadRate (ThreadTable (snd ?c)) = map ThreadRate (ThreadTable (snd c))"
      by (simp_all add: PIT_LED_HANDLER_table tick_ThdObj_rate)
    with Cons.IH [of ?c] Tick show ?thesis by simp
  next
    case Main
    from Cons.prems have "length (ThreadTable (snd (main_step c))) = 3"
      by (simp add: main_step_rates)
    with Cons.IH [of "main_step c"] Main show ?thesis by (simp add: main_step_rates)
  next
    case Round
    from Cons.prems have "length (ThreadTable (snd (main_until_exit c))) = 3"
      by (simp add: main_until_exit_rates)
    with Cons.IH [of "main_until_exit c"] Round show ?thesis by (simp add: main_until_exit_rates)
  qed
qed

lemma run_length_rates:
  "length (ThreadTable s) = 3 \<Longrightarrow>
   length (ThreadTable (run steps s)) = 3 \<and>
   map ThreadRate (ThreadTable (run steps s)) = map ThreadRate (ThreadTable s)"
  using exec_length_rates [of "((0, Test), s)" steps] by (simp add: run_def)





























text \<open>C4. One execution of the tick interrupt handler updates every descriptor of the table
  as \<open>tick_ThdObj\<close> says: the elapsed counter is incremented by one, and exactly when it
  then reaches or exceeds the period the state becomes READY and the counter is reset to 0.
  Hence after the handler every elapsed counter is strictly below its period, for every
  table with positive periods, and in every execution of the program, wherever in the main
  loop the interrupt is taken.\<close>

theorem PIT_LED_HANDLER_elapsed_below_period:
  assumes "length (ThreadTable s) = 3"
  shows "ThreadTable (PIT_LED_HANDLER s) = map tick_ThdObj (ThreadTable s) \<and>
         ((\<forall>d \<in> set (ThreadTable s). 0 < ThreadRate d) \<longrightarrow>
            (\<forall>d \<in> set (ThreadTable (PIT_LED_HANDLER s)). SystemTime d < ThreadRate d)) \<and>
         (\<forall>d \<in> set (ThreadTable (PIT_LED_HANDLER (run steps sched_startup))).
            SystemTime d < ThreadRate d)"
proof (intro conjI impI)
  show table: "ThreadTable (PIT_LED_HANDLER s) = map tick_ThdObj (ThreadTable s)"
    using assms by (rule PIT_LED_HANDLER_table)
  show "\<forall>d \<in> set (ThreadTable (PIT_LED_HANDLER s)). SystemTime d < ThreadRate d"
    if "\<forall>d \<in> set (ThreadTable s). 0 < ThreadRate d"
    using that by (auto simp: table tick_ThdObj_elapsed)
next
  let ?s = "run steps sched_startup"
  have start: "length (ThreadTable sched_startup) = 3"
    by (simp add: sched_startup_def)
  from run_length_rates [OF start, of steps]
  have len: "length (ThreadTable ?s) = 3"
    and rates: "map ThreadRate (ThreadTable ?s) = [2, 5, 10]"
    by (simp_all add: sched_startup_def)
  from len obtain a b c where abc: "ThreadTable ?s = [a, b, c]" by (rule list3_cases)
  with rates have "0 < ThreadRate a" "0 < ThreadRate b" "0 < ThreadRate c" by simp_all
  then show "\<forall>d \<in> set (ThreadTable (PIT_LED_HANDLER ?s)). SystemTime d < ThreadRate d"
    by (simp add: PIT_LED_HANDLER_table [OF len] abc tick_ThdObj_elapsed)
qed

theorem PIT_LED_HANDLER_elapsed_below_period_witness:
  "length (ThreadTable (sched_startup\<lparr>ThreadTable :=
      [\<lparr>ThreadHandler = Addr_Thd_2ms, ThreadState = STANDBY, ThreadRate = 2, SystemTime = 1\<rparr>,
       \<lparr>ThreadHandler = Addr_Thd_5ms, ThreadState = STANDBY, ThreadRate = 5, SystemTime = 3\<rparr>,
       \<lparr>ThreadHandler = Addr_Thd_10ms, ThreadState = STANDBY, ThreadRate = 10, SystemTime = 9\<rparr>]\<rparr>)) = 3 \<and>
   ThreadTable (PIT_LED_HANDLER (sched_startup\<lparr>ThreadTable :=
      [\<lparr>ThreadHandler = Addr_Thd_2ms, ThreadState = STANDBY, ThreadRate = 2, SystemTime = 1\<rparr>,
       \<lparr>ThreadHandler = Addr_Thd_5ms, ThreadState = STANDBY, ThreadRate = 5, SystemTime = 3\<rparr>,
       \<lparr>ThreadHandler = Addr_Thd_10ms, ThreadState = STANDBY, ThreadRate = 10, SystemTime = 9\<rparr>]\<rparr>)) =
      [\<lparr>ThreadHandler = Addr_Thd_2ms, ThreadState = READY, ThreadRate = 2, SystemTime = 0\<rparr>,
       \<lparr>ThreadHandler = Addr_Thd_5ms, ThreadState = STANDBY, ThreadRate = 5, SystemTime = 4\<rparr>,
       \<lparr>ThreadHandler = Addr_Thd_10ms, ThreadState = READY, ThreadRate = 10, SystemTime = 0\<rparr>] \<and>
   map (\<lambda>d. SystemTime d < ThreadRate d)
     (ThreadTable (PIT_LED_HANDLER (sched_startup\<lparr>ThreadTable :=
      [\<lparr>ThreadHandler = Addr_Thd_2ms, ThreadState = STANDBY, ThreadRate = 2, SystemTime = 1\<rparr>,
       \<lparr>ThreadHandler = Addr_Thd_5ms, ThreadState = STANDBY, ThreadRate = 5, SystemTime = 3\<rparr>,
       \<lparr>ThreadHandler = Addr_Thd_10ms, ThreadState = STANDBY, ThreadRate = 10, SystemTime = 9\<rparr>]\<rparr>))) =
     [True, True, True]"
  using PIT_LED_HANDLER_elapsed_below_period [of "sched_startup\<lparr>ThreadTable :=
      [\<lparr>ThreadHandler = Addr_Thd_2ms, ThreadState = STANDBY, ThreadRate = 2, SystemTime = 1\<rparr>,
       \<lparr>ThreadHandler = Addr_Thd_5ms, ThreadState = STANDBY, ThreadRate = 5, SystemTime = 3\<rparr>,
       \<lparr>ThreadHandler = Addr_Thd_10ms, ThreadState = STANDBY, ThreadRate = 10, SystemTime = 9\<rparr>]\<rparr>" "[]"]
  by (simp add: tick_ThdObj_def)




end
